theory Spec2Isabelle
  imports Complex_Main "HOL-Library.Multiset" "HOL-Library.Log_Nat"
begin

section \<open>JavaScript values used by the collector\<close>

text \<open>
  The result of \<^verbatim>\<open>JSON.parse\<close>: any JSON value. Numbers written by the collector are
  integer counters.
\<close>

datatype json =
  JNull
  | JBool bool
  | JNum int
  | JStr string
  | JArr "json list"
  | JObj "(string \<times> json) list"

datatype js_error = TypeError | ReferenceError

section \<open>History file (\<^verbatim>\<open>updateHistory\<close>)\<close>

text \<open>
  What \<^verbatim>\<open>fs.existsSync(HISTORY_FILE)\<close> and
  \<^verbatim>\<open>JSON.parse(fs.readFileSync(HISTORY_FILE, 'utf8'))\<close> can give: no file, a file whose
  reading or parsing throws (caught by the \<^verbatim>\<open>try\<close> around it), or a parsed value.
\<close>

datatype history_file = Missing | Unparseable | Parsed json

record stats =
  repositories_count :: int
  stars :: int
  forks :: int
  contributors_total :: int
  totalCommits :: int
  linesOfCode :: int

record metrics =
  timestamp :: string
  stats :: stats

definition historicalEntry :: "metrics \<Rightarrow> json" where
  "historicalEntry m = JObj
     [(''timestamp'', JStr (timestamp m)),
      (''repositories'', JNum (repositories_count (stats m))),
      (''stars'', JNum (stars (stats m))),
      (''forks'', JNum (forks (stats m))),
      (''contributors'', JNum (contributors_total (stats m))),
      (''commits'', JNum (totalCommits (stats m))),
      (''linesOfCode'', JNum (linesOfCode (stats m)))]"

text \<open>\<^verbatim>\<open>let history = []; if (exists) { try { history = JSON.parse(...) } catch { warn } }\<close>\<close>

definition loadHistory :: "history_file \<Rightarrow> json" where
  "loadHistory f = (case f of Missing \<Rightarrow> JArr [] | Unparseable \<Rightarrow> JArr [] | Parsed v \<Rightarrow> v)"

text \<open>
  \<^verbatim>\<open>xs.slice(start)\<close> for an integer \<open>start\<close>: a negative start counts from the end,
  and the start is clamped to the array.
\<close>

definition slice_from :: "int \<Rightarrow> 'a list \<Rightarrow> 'a list" where
  "slice_from start xs =
     (let n = int (length xs);
          k = (if start < 0 then max (n + start) 0 else min start n)
      in drop (nat k) xs)"

text \<open>
  \<^verbatim>\<open>updateHistory\<close> of \<^verbatim>\<open>scripts/collect-metrics.js\<close>. The result is the array handed to
  \<^verbatim>\<open>fs.writeFileSync(HISTORY_FILE, ...)\<close>. \<^verbatim>\<open>history.push\<close> on a parsed value that is
  not an array throws a \<^verbatim>\<open>TypeError\<close>, which nothing in the function catches.
\<close>

definition updateHistory :: "history_file \<Rightarrow> metrics \<Rightarrow> js_error + json list" where
  "updateHistory f currentMetrics =
     (case loadHistory f of
        JArr old \<Rightarrow>
          (let history = old @ [historicalEntry currentMetrics]
           in Inr (if length history > 100
                   then slice_from (int (length history) - 100) history
                   else history))
      | _ \<Rightarrow> Inl TypeError)"

text \<open>
  The same step as it is inlined at the end of \<^verbatim>\<open>collectMetrics\<close> in the enhanced
  script (lines 1145-1169), where the cut is written \<^verbatim>\<open>history.slice(-100)\<close>.
\<close>

definition history_step :: "history_file \<Rightarrow> metrics \<Rightarrow> js_error + json list" where
  "history_step f m =
     (case loadHistory f of
        JArr old \<Rightarrow>
          (let history = old @ [historicalEntry m]
           in Inr (if length history > 100 then slice_from (- 100) history else history))
      | _ \<Rightarrow> Inl TypeError)"

text \<open>
  Before that step \<^verbatim>\<open>collectMetrics\<close> builds \<^verbatim>\<open>metrics.stats.coauthor_processing\<close>
  (lines 1127-1135). Reading an identifier succeeds when a binding for it is in scope and
  throws a \<^verbatim>\<open>ReferenceError\<close> otherwise. In scope at that object literal are the
  imports, constants, variables and functions of the module, and the bindings that
  \<^verbatim>\<open>collectMetrics\<close> has declared by then.
\<close>

definition bindings_in_scope :: "string list" where
  "bindings_in_scope =
     [''Octokit'', ''fs'', ''path'',
      ''ORG_NAME'', ''TOKEN'', ''OUTPUT_DIR'', ''OUTPUT_FILE'', ''HISTORY_FILE'', ''DEBUG'',
      ''octokit'', ''remainingRequests'', ''resetTime'', ''totalRequests'',
      ''apiRequest'', ''getAllItems'', ''extractCoAuthors'', ''lookupUserByEmail'',
      ''batchLookupUsersByEmail'', ''collectMetrics'',
      ''startTime'', ''allRepos'', ''metrics'', ''contributorsMap'', ''coAuthorEmails'',
      ''coauthorLogPath'', ''allCoauthors'', ''MAX_BATCH_SIZE'', ''primaryRepos'',
      ''remainingRepos'', ''allReposInProcessOrder'', ''repoStats'', ''emailToGitHubUser'',
      ''loginMap'', ''duplicates'', ''githubUserMap'', ''nameMap'', ''mergedLogins'',
      ''allContributors'']"

definition read_identifier :: "string \<Rightarrow> js_error + unit" where
  "read_identifier x = (if x \<in> set bindings_in_scope then Inr () else Inl ReferenceError)"

fun read_identifiers :: "string list \<Rightarrow> js_error + unit" where
  "read_identifiers [] = Inr ()"
| "read_identifiers (x # xs) =
     (case read_identifier x of Inl e \<Rightarrow> Inl e | Inr _ \<Rightarrow> read_identifiers xs)"

text \<open>
  The identifiers that the object literal reads, in evaluation order:
  \<^verbatim>\<open>coAuthorEmails.size\<close>, \<^verbatim>\<open>emailToGitHubUser.size\<close>, \<^verbatim>\<open>duplicates.length\<close>,
  \<^verbatim>\<open>[...coAuthorEmails].filter(...)\<close>, \<^verbatim>\<open>usernameToDisplayName.size\<close> (line 1133) and
  \<^verbatim>\<open>mergedLogins.size\<close>.
\<close>

definition coauthor_processing :: "js_error + unit" where
  "coauthor_processing =
     read_identifiers [''coAuthorEmails'', ''emailToGitHubUser'', ''duplicates'',
       ''coAuthorEmails'', ''usernameToDisplayName'', ''mergedLogins'']"

text \<open>
  The end of \<^verbatim>\<open>collectMetrics\<close> in the enhanced script, from that object literal to the
  history write. An error is thrown inside the \<^verbatim>\<open>try\<close> block of \<^verbatim>\<open>collectMetrics\<close>,
  whose handler logs it and calls \<^verbatim>\<open>process.exit(1)\<close>: the history step is not run and
  the history file is not written.
\<close>

definition collectMetrics_history :: "history_file \<Rightarrow> metrics \<Rightarrow> js_error + json list" where
  "collectMetrics_history f m =
     (case coauthor_processing of
        Inl e \<Rightarrow> Inl e
      | Inr _ \<Rightarrow> history_step f m)"

section \<open>Strings\<close>

text \<open>
  JavaScript strings are modelled as \<^typ>\<open>string\<close> (lists of 8-bit characters); the
  functions below are the ASCII behaviour of the string methods the collector calls.
\<close>

definition code :: "char \<Rightarrow> nat" where
  "code c = of_char c"

definition isUpper :: "char \<Rightarrow> bool" where
  "isUpper c = (65 \<le> code c \<and> code c \<le> 90)"

definition isLower :: "char \<Rightarrow> bool" where
  "isLower c = (97 \<le> code c \<and> code c \<le> 122)"

definition isDigit :: "char \<Rightarrow> bool" where
  "isDigit c = (48 \<le> code c \<and> code c \<le> 57)"

definition lowerChar :: "char \<Rightarrow> char" where
  "lowerChar c =
     (if isUpper c
      then (case c of Char b0 b1 b2 b3 b4 b5 b6 b7 \<Rightarrow> Char b0 b1 b2 b3 b4 True b6 b7)
      else c)"

definition toLowerCase :: "string \<Rightarrow> string" where
  "toLowerCase s = map lowerChar s"

fun startsWith :: "string \<Rightarrow> string \<Rightarrow> bool" where
  "startsWith s [] = True"
| "startsWith [] (c # cs) = False"
| "startsWith (x # xs) (c # cs) = (x = c \<and> startsWith xs cs)"

fun str_includes :: "string \<Rightarrow> string \<Rightarrow> bool" where
  "str_includes [] sub = (sub = [])"
| "str_includes (x # xs) sub = (startsWith (x # xs) sub \<or> str_includes xs sub)"

text \<open>Truthiness of an optional string: \<^verbatim>\<open>undefined\<close>, \<^verbatim>\<open>null\<close> and \<^verbatim>\<open>""\<close> are falsy.\<close>

definition truthy :: "string option \<Rightarrow> bool" where
  "truthy v = (case v of None \<Rightarrow> False | Some s \<Rightarrow> s \<noteq> [])"

definition endsWith :: "string \<Rightarrow> string \<Rightarrow> bool" where
  "endsWith s suffix = startsWith (rev s) (rev suffix)"

text \<open>\<^verbatim>\<open>s.split(sep)\<close> for a one-character separator; the result is never empty.\<close>

fun split_on :: "char \<Rightarrow> string \<Rightarrow> string list" where
  "split_on sep [] = [[]]"
| "split_on sep (c # cs) =
     (if c = sep then [] # split_on sep cs
      else (case split_on sep cs of [] \<Rightarrow> [[c]] | x # xs \<Rightarrow> (c # x) # xs))"

text \<open>\<^verbatim>\<open>xs[i]\<close>: \<^verbatim>\<open>undefined\<close> out of range.\<close>

fun at_index :: "'a list \<Rightarrow> nat \<Rightarrow> 'a option" where
  "at_index [] i = None"
| "at_index (x # xs) 0 = Some x"
| "at_index (x # xs) (Suc i) = at_index xs i"

text \<open>
  The decimal rendering of a non-negative integer in a template string
  (\<^verbatim>\<open>`${n}`\<close>).
\<close>

definition digit_char :: "int \<Rightarrow> char" where
  "digit_char d = ''0123456789'' ! nat d"

function show_int :: "int \<Rightarrow> string" where
  "show_int n = (if n < 10 then [digit_char n] else show_int (n div 10) @ [digit_char (n mod 10)])"
  by pat_completeness auto
termination
  by (relation "measure nat") auto

declare show_int.simps [simp del]

text \<open>\<^verbatim>\<open>s.toLowerCase().replace(/[^a-z0-9]/g, '')\<close>\<close>

definition clean :: "string \<Rightarrow> string" where
  "clean s = filter (\<lambda>c. isLower c \<or> isDigit c) (toLowerCase s)"

section \<open>Regular expressions\<close>

text \<open>
  The regular expressions of the scripts are sequences of quantified character classes,
  groups and anchors. \<^term>\<open>run_atoms\<close> is the backtracking matcher of JavaScript for
  such sequences: a greedy quantifier tries the longest run first, a lazy one the
  shortest; the first alternative that lets the rest of the pattern match wins. White
  space and word characters are the ASCII ones.
\<close>

definition isSpace :: "char \<Rightarrow> bool" where
  "isSpace c = (code c = 32 \<or> (9 \<le> code c \<and> code c \<le> 13))"

definition isAlnum :: "char \<Rightarrow> bool" where
  "isAlnum c = (isDigit c \<or> isLower c \<or> isUpper c)"

definition isWordChar :: "char \<Rightarrow> bool" where
  "isWordChar c = (isAlnum c \<or> c = CHR ''_'')"

definition isLineTerminator :: "char \<Rightarrow> bool" where
  "isLineTerminator c = (code c = 10 \<or> code c = 13)"

datatype atom =
  Ch "char \<Rightarrow> bool"
  | Greedy nat "char \<Rightarrow> bool"
  | Lazy nat "char \<Rightarrow> bool"
  | GOpen nat
  | GClose nat
  | Bol
  | Eol
  | WordB

type_synonym captures = "(nat \<times> string) list"

fun first_some :: "('a \<Rightarrow> 'b option) \<Rightarrow> 'a list \<Rightarrow> 'b option" where
  "first_some f [] = None"
| "first_some f (x # xs) = (case f x of Some y \<Rightarrow> Some y | None \<Rightarrow> first_some f xs)"

definition prev_after :: "char option \<Rightarrow> string \<Rightarrow> nat \<Rightarrow> char option" where
  "prev_after prev rest j = (case rev (take j rest) of [] \<Rightarrow> prev | c # _ \<Rightarrow> Some c)"

definition wordAt :: "char option \<Rightarrow> bool" where
  "wordAt c = (case c of None \<Rightarrow> False | Some x \<Rightarrow> isWordChar x)"

definition next_char :: "string \<Rightarrow> char option" where
  "next_char rest = (case rest of [] \<Rightarrow> None | c # _ \<Rightarrow> Some c)"

primrec run_atoms ::
  "atom list \<Rightarrow> char option \<Rightarrow> string \<Rightarrow> (nat \<times> string) list \<Rightarrow> captures
     \<Rightarrow> (string \<times> captures) option" where
  "run_atoms [] prev rest opens caps = Some (rest, caps)"
| "run_atoms (a # as) prev rest opens caps =
     (case a of
        Ch p \<Rightarrow>
          (case rest of
             [] \<Rightarrow> None
           | c # cs \<Rightarrow> if p c then run_atoms as (Some c) cs opens caps else None)
      | Greedy n p \<Rightarrow>
          first_some (\<lambda>j. run_atoms as (prev_after prev rest j) (drop j rest) opens caps)
            (rev [n ..< Suc (length (takeWhile p rest))])
      | Lazy n p \<Rightarrow>
          first_some (\<lambda>j. run_atoms as (prev_after prev rest j) (drop j rest) opens caps)
            [n ..< Suc (length (takeWhile p rest))]
      | GOpen g \<Rightarrow> run_atoms as prev rest ((g, rest) # opens) caps
      | GClose g \<Rightarrow>
          (case opens of
             [] \<Rightarrow> None
           | (g', start) # os \<Rightarrow>
               run_atoms as prev rest os
                 ((g', take (length start - length rest) start) # caps))
      | Bol \<Rightarrow> if prev = None then run_atoms as prev rest opens caps else None
      | Eol \<Rightarrow> if rest = [] then run_atoms as prev rest opens caps else None
      | WordB \<Rightarrow>
          if wordAt prev \<noteq> wordAt (next_char rest)
          then run_atoms as prev rest opens caps else None)"

record rmatch =
  m_index :: nat
  m_text :: string
  m_groups :: captures

definition match_here :: "atom list \<Rightarrow> char option \<Rightarrow> string \<Rightarrow> nat \<Rightarrow> rmatch option" where
  "match_here re prev rest i =
     (case run_atoms re prev rest [] [] of
        None \<Rightarrow> None
      | Some (rest', caps) \<Rightarrow>
          Some \<lparr>m_index = i, m_text = take (length rest - length rest') rest, m_groups = caps\<rparr>)"

fun search_from :: "atom list \<Rightarrow> char option \<Rightarrow> string \<Rightarrow> nat \<Rightarrow> rmatch option" where
  "search_from re prev [] i = match_here re prev [] i"
| "search_from re prev (c # cs) i =
     (case match_here re prev (c # cs) i of
        Some r \<Rightarrow> Some r
      | None \<Rightarrow> search_from re (Some c) cs (Suc i))"

definition str_match :: "string \<Rightarrow> atom list \<Rightarrow> rmatch option" where
  "str_match s re = search_from re None s 0"

definition regex_test :: "atom list \<Rightarrow> string \<Rightarrow> bool" where
  "regex_test re s = (str_match s re \<noteq> None)"

definition group :: "rmatch \<Rightarrow> nat \<Rightarrow> string" where
  "group r g = (case map_of (m_groups r) g of None \<Rightarrow> [] | Some s \<Rightarrow> s)"

fun matchAll_from :: "atom list \<Rightarrow> nat \<Rightarrow> char option \<Rightarrow> string \<Rightarrow> nat \<Rightarrow> rmatch list" where
  "matchAll_from re skip prev [] i =
     (if skip = 0 then (case match_here re prev [] i of None \<Rightarrow> [] | Some r \<Rightarrow> [r]) else [])"
| "matchAll_from re skip prev (c # cs) i =
     (if skip > 0 then matchAll_from re (skip - 1) (Some c) cs (Suc i)
      else case match_here re prev (c # cs) i of
        None \<Rightarrow> matchAll_from re 0 (Some c) cs (Suc i)
      | Some r \<Rightarrow> r # matchAll_from re (length (m_text r) - 1) (Some c) cs (Suc i))"

definition matchAll :: "string \<Rightarrow> atom list \<Rightarrow> rmatch list" where
  "matchAll s re = matchAll_from re 0 None s 0"

definition lit :: "string \<Rightarrow> atom list" where
  "lit s = map (\<lambda>x. Ch (\<lambda>c. c = x)) s"

definition lit_i :: "string \<Rightarrow> atom list" where
  "lit_i s = map (\<lambda>x. Ch (\<lambda>c. lowerChar c = lowerChar x)) s"

definition dot :: "char \<Rightarrow> bool" where
  "dot c = (\<not> isLineTerminator c)"

definition isHandleChar :: "char \<Rightarrow> bool" where
  "isHandleChar c = (isAlnum c \<or> c = CHR ''-'')"


text \<open>
  \<^verbatim>\<open>s.split(re)\<close> for a pattern without groups whose matches are not empty: the pieces
  between successive matches, scanning from the left.
\<close>

fun split_from :: "atom list \<Rightarrow> nat \<Rightarrow> char option \<Rightarrow> string \<Rightarrow> string \<Rightarrow> string list" where
  "split_from re skip prev [] cur = [rev cur]"
| "split_from re skip prev (c # cs) cur =
     (if skip > 0 then split_from re (skip - 1) (Some c) cs cur
      else case match_here re prev (c # cs) 0 of
        None \<Rightarrow> split_from re 0 (Some c) cs (c # cur)
      | Some r \<Rightarrow>
          if m_text r = [] then split_from re 0 (Some c) cs (c # cur)
          else rev cur # split_from re (length (m_text r) - 1) (Some c) cs [])"

definition split_re :: "string \<Rightarrow> atom list \<Rightarrow> string list" where
  "split_re s re = split_from re 0 None s []"

definition trim :: "string \<Rightarrow> string" where
  "trim s = rev (dropWhile isSpace (rev (dropWhile isSpace s)))"

section \<open>Deriving a username from an e-mail address and a name\<close>

definition githubNoReplyRegex :: "atom list" where
  \<comment> \<open>\<^verbatim>\<open>/^(\d+)\+(.+)@users\.noreply\.github\.com$/i\<close>\<close>
  "githubNoReplyRegex =
     [Bol, GOpen 1, Greedy 1 isDigit, GClose 1, Ch (\<lambda>c. c = CHR ''+''),
      GOpen 2, Greedy 1 dot, GClose 2]
     @ lit_i ''@users.noreply.github.com'' @ [Eol]"

definition mentionRegex :: "atom list" where
  \<comment> \<open>\<^verbatim>\<open>/@([a-zA-Z0-9\-]+)/\<close>\<close>
  "mentionRegex = [Ch (\<lambda>c. c = CHR ''@''), GOpen 1, Greedy 1 isHandleChar, GClose 1]"

definition allDigitsRegex :: "atom list" where
  \<comment> \<open>\<^verbatim>\<open>/^\d+$/\<close>\<close>
  "allDigitsRegex = [Bol, Greedy 1 isDigit, Eol]"

definition handleShapedRegex :: "atom list" where
  \<comment> \<open>\<^verbatim>\<open>/^[a-zA-Z0-9\-]+$/\<close>\<close>
  "handleShapedRegex = [Bol, Greedy 1 isHandleChar, Eol]"

definition parenthesesRegex :: "atom list" where
  \<comment> \<open>\<^verbatim>\<open>/\(([a-zA-Z0-9\-]+)\)/\<close>\<close>
  "parenthesesRegex =
     [Ch (\<lambda>c. c = CHR ''(''), GOpen 1, Greedy 1 isHandleChar, GClose 1, Ch (\<lambda>c. c = CHR '')'')]"

definition whitespaceRegex :: "atom list" where
  \<comment> \<open>\<^verbatim>\<open>/\s+/\<close>\<close>
  "whitespaceRegex = [Greedy 1 isSpace]"

text \<open>\<^verbatim>\<open>m && m[g]\<close> for the result of \<^verbatim>\<open>s.match(re)\<close>: the group when it is not empty.\<close>

definition matched_group :: "string \<Rightarrow> atom list \<Rightarrow> nat \<Rightarrow> string option" where
  "matched_group s re g =
     (case str_match s re of
        None \<Rightarrow> None
      | Some r \<Rightarrow> if group r g \<noteq> [] then Some (group r g) else None)"

text \<open>\<^verbatim>\<open>email.split('@')[0]\<close>\<close>

definition local_part :: "string \<Rightarrow> string" where
  "local_part email = (case split_on CHR ''@'' email of [] \<Rightarrow> [] | x # _ \<Rightarrow> x)"

text \<open>
  Both username functions are chains of \<^verbatim>\<open>if (...) return ...;\<close> statements: the first
  rule that returns decides. \<^term>\<open>first_of\<close> runs such a chain, \<^term>\<open>None\<close> meaning that
  a rule falls through to the next statement.
\<close>

fun first_of :: "'a option list \<Rightarrow> 'a option" where
  "first_of [] = None"
| "first_of (None # rs) = first_of rs"
| "first_of (Some x # rs) = Some x"

text \<open>The \<^verbatim>\<open>return\<close> statements shared by the two functions.\<close>

definition rule_noreply_id :: "string \<Rightarrow> string option" where
  \<comment> \<open>\<^verbatim>\<open>if (githubMatch && githubMatch[2]) return githubMatch[2];\<close>\<close>
  "rule_noreply_id email = matched_group email githubNoReplyRegex 2"

definition rule_mention :: "string \<Rightarrow> string option" where
  \<comment> \<open>\<^verbatim>\<open>m = name.match(/@([a-zA-Z0-9\-]+)/); if (m && m[1]) return m[1];\<close>\<close>
  "rule_mention name = matched_group name mentionRegex 1"

definition rule_github_com :: "string \<Rightarrow> string option" where
  \<comment> \<open>\<^verbatim>\<open>if (email.endsWith('@github.com')) return email.split('@')[0];\<close>\<close>
  "rule_github_com email =
     (if endsWith email ''@github.com'' then Some (local_part email) else None)"

definition rule_users_github_com :: "string \<Rightarrow> string option" where
  "rule_users_github_com email =
     (if endsWith email ''@users.github.com'' then Some (local_part email) else None)"

definition rule_noreply_plain :: "string \<Rightarrow> string option" where
  "rule_noreply_plain email =
     (if endsWith email ''@users.noreply.github.com'' \<and> \<not> str_includes email ''+''
      then Some (local_part email) else None)"

definition rule_email_username :: "string \<Rightarrow> string option" where
  \<comment> \<open>\<^verbatim>\<open>if (emailUsername && emailUsername.length > 2 && !/^\d+$/.test(emailUsername))\<close>\<close>
  "rule_email_username email =
     (let emailUsername = local_part email in
      if emailUsername \<noteq> [] \<and> length emailUsername > 2 \<and>
         \<not> regex_test allDigitsRegex emailUsername
      then Some emailUsername else None)"

text \<open>
  \<^verbatim>\<open>extractUsername(email, name)\<close> of \<^verbatim>\<open>scripts/collect-metrics.js\<close>; its caller passes
  two strings. \<^term>\<open>None\<close> is \<^verbatim>\<open>null\<close>.
\<close>

definition extractUsername :: "string \<Rightarrow> string \<Rightarrow> string option" where
  "extractUsername email name = first_of
     [rule_noreply_id email,
      rule_github_com email,
      rule_users_github_com email,
      rule_noreply_plain email,
      (if name \<noteq> [] then rule_mention name else None),
      rule_email_username email,
      (if name \<noteq> [] then Some (clean name) else None)]"

text \<open>
  The placeholder of \<^verbatim>\<open>getUsernameFromEmail\<close>:
  \<^verbatim>\<open>email.split('').reduce((a, b) => (((a << 5) - a) + b.charCodeAt(0))|0, 0)\<close> and
  \<^verbatim>\<open>Math.abs\<close> of it. Both \<^verbatim>\<open>a << 5\<close> and \<^verbatim>\<open>... | 0\<close> wrap their result to a signed
  32-bit integer (\<^term>\<open>toInt32\<close>).
\<close>

definition toInt32 :: "int \<Rightarrow> int" where
  "toInt32 x = (x + 2147483648) mod 4294967296 - 2147483648"

definition emailHash :: "string \<Rightarrow> int" where
  "emailHash email = foldl (\<lambda>a b. toInt32 (toInt32 (a * 32) - a + int (code b))) 0 email"

definition placeholder :: "string \<Rightarrow> string" where
  "placeholder email = ''contributor-'' @ show_int \<bar>emailHash email\<bar>"

definition rule_team_member :: "string \<Rightarrow> string option" where
  \<comment> \<open>\<^verbatim>\<open>if (email.includes('+')) { const parts = email.split('+'); ... }\<close>\<close>
  "rule_team_member email =
     (if str_includes email ''+''
      then (case at_index (split_on CHR ''+'' email) 1 of
              None \<Rightarrow> None
            | Some part \<Rightarrow>
                if str_includes part ''@''
                then (let username = local_part part in
                      if username \<noteq> [] \<and> length username > 2 then Some username else None)
                else None)
      else None)"

definition rule_handle_shaped :: "string \<Rightarrow> string option" where
  "rule_handle_shaped name =
     (if name \<noteq> [] \<and> regex_test handleShapedRegex name \<and> length name > 2 \<and> length name < 40
      then Some name else None)"

definition rule_parentheses :: "string \<Rightarrow> string option" where
  "rule_parentheses name =
     (if name \<noteq> [] then matched_group name parenthesesRegex 1 else None)"

definition rule_cleaned_name :: "string \<Rightarrow> string option" where
  "rule_cleaned_name name =
     (if name \<noteq> []
      then (let firstWord = (case split_re name whitespaceRegex of [] \<Rightarrow> [] | w # _ \<Rightarrow> w) in
            if firstWord \<noteq> [] \<and> length firstWord > 2 then Some (clean firstWord)
            else Some (clean name))
      else None)"

definition rule_placeholder :: "string \<Rightarrow> string option" where
  "rule_placeholder email = (if email \<noteq> [] then Some (placeholder email) else None)"

text \<open>
  \<^verbatim>\<open>getUsernameFromEmail(email, name)\<close> of the workflow's collector script. The
  arguments may be \<^verbatim>\<open>null\<close> or \<^verbatim>\<open>undefined\<close> (\<^term>\<open>None\<close>); both are replaced by the
  empty string after the first test.
\<close>

definition or_empty :: "string option \<Rightarrow> string" where
  "or_empty v = (case v of None \<Rightarrow> [] | Some s \<Rightarrow> s)"

definition getUsernameFromEmail :: "string option \<Rightarrow> string option \<Rightarrow> string option" where
  "getUsernameFromEmail email0 name0 =
     (if \<not> truthy email0 \<and> \<not> truthy name0 then None
      else
        let email = or_empty email0; name = or_empty name0 in
        first_of
          [(if str_includes name ''@'' then rule_mention name else None),
           rule_noreply_id email,
           rule_team_member email,
           rule_github_com email,
           (case rule_users_github_com email of
              Some u \<Rightarrow> Some u | None \<Rightarrow> rule_noreply_plain email),
           rule_handle_shaped name,
           rule_parentheses name,
           rule_email_username email,
           rule_cleaned_name name,
           rule_placeholder email])"

section \<open>Contributor registry (\<^verbatim>\<open>contributorsMap\<close>)\<close>

datatype match_type = Email | GithubLogin | SimilarName

record merged_alias =
  alias_login :: string
  alias_type :: match_type
  alias_contributions :: int
  alias_repositories :: "string list"

text \<open>
  One value of \<^verbatim>\<open>contributorsMap\<close>. \<^verbatim>\<open>repositories\<close> is a JavaScript \<^verbatim>\<open>Set\<close>: a
  duplicate-free list in insertion order. Fields that the script leaves \<^verbatim>\<open>undefined\<close>
  are \<^term>\<open>None\<close>.
\<close>

record contributor =
  login :: string
  email :: "string option"
  avatar_url :: "string option"
  html_url :: "string option"
  contributions :: int
  lines_contributed :: int
  repositories :: "string list"
  github_login :: "string option"
  aliases :: "merged_alias list option"
  pending_github_lookup :: bool
  matched_by_email :: "bool option"
  matched_by_name :: "bool option"

text \<open>
  A JavaScript \<^verbatim>\<open>Map\<close> keeps its keys in insertion order: \<^verbatim>\<open>set\<close> on a present key
  replaces the value in place, on a new key appends; \<^verbatim>\<open>delete\<close> removes the entry.
\<close>

type_synonym registry = "(string \<times> contributor) list"

fun Map_get :: "(string \<times> 'v) list \<Rightarrow> string \<Rightarrow> 'v option" where
  "Map_get [] k = None"
| "Map_get ((k', v) # m) k = (if k' = k then Some v else Map_get m k)"

definition Map_has :: "(string \<times> 'v) list \<Rightarrow> string \<Rightarrow> bool" where
  "Map_has m k = (Map_get m k \<noteq> None)"

fun Map_set :: "string \<Rightarrow> 'v \<Rightarrow> (string \<times> 'v) list \<Rightarrow> (string \<times> 'v) list" where
  "Map_set k v [] = [(k, v)]"
| "Map_set k v ((k', v') # m) = (if k' = k then (k, v) # m else (k', v') # Map_set k v m)"

fun Map_delete :: "string \<Rightarrow> (string \<times> 'v) list \<Rightarrow> (string \<times> 'v) list" where
  "Map_delete k [] = []"
| "Map_delete k ((k', v) # m) = (if k' = k then Map_delete k m else (k', v) # Map_delete k m)"

definition Set_add :: "string \<Rightarrow> string list \<Rightarrow> string list" where
  "Set_add x xs = (if x \<in> set xs then xs else xs @ [x])"

section \<open>Extracting co-authors from a commit message (\<^verbatim>\<open>extractCoAuthors\<close>)\<close>

datatype source = Step1 | Step2 | Step3 | Step4 | Desperate

record coauthor =
  ca_name :: string
  ca_email :: string
  ca_source :: source

definition CR :: char where "CR = CHR 0x0D"
definition LF :: char where "LF = CHR 0x0A"

text \<open>\<^verbatim>\<open>s.replace(/\r\n/g, r)\<close> and \<^verbatim>\<open>s.replace(/\n/g, r)\<close>\<close>

fun replace_crlf :: "string \<Rightarrow> string \<Rightarrow> string" where
  "replace_crlf r [] = []"
| "replace_crlf r [c] = [c]"
| "replace_crlf r (c # d # cs) =
     (if c = CR \<and> d = LF then r @ replace_crlf r cs else c # replace_crlf r (d # cs))"

definition replace_lf :: "string \<Rightarrow> string \<Rightarrow> string" where
  "replace_lf r s = concat (map (\<lambda>c. if c = LF then r else [c]) s)"

definition coAuthoredBy_i :: "atom list" where
  \<comment> \<open>\<^verbatim>\<open>/Co-[aA]uthored-[bB]y:/i\<close> and \<^verbatim>\<open>/Co-Authored-By:/i\<close>\<close>
  "coAuthoredBy_i = lit_i ''Co-Authored-By:''"

definition emailBracket :: "atom list" where
  \<comment> \<open>\<^verbatim>\<open>/<([^>]+)>/\<close>\<close>
  "emailBracket =
     [Ch (\<lambda>c. c = CHR ''<''), GOpen 1, Greedy 1 (\<lambda>c. c \<noteq> CHR ''>''), GClose 1,
      Ch (\<lambda>c. c = CHR ''>'')]"

definition nameBeforeBracket :: "atom list" where
  \<comment> \<open>\<^verbatim>\<open>/Co-[aA]uthored-[bB]y:([^<]+)</i\<close>\<close>
  "nameBeforeBracket =
     coAuthoredBy_i @ [GOpen 1, Greedy 1 (\<lambda>c. c \<noteq> CHR ''<''), GClose 1, Ch (\<lambda>c. c = CHR ''<'')]"

definition nameAfterMarker :: "atom list" where
  \<comment> \<open>\<^verbatim>\<open>/Co-Authored-By:\s*([^<]+)</i\<close>\<close>
  "nameAfterMarker =
     coAuthoredBy_i @
     [Greedy 0 isSpace, GOpen 1, Greedy 1 (\<lambda>c. c \<noteq> CHR ''<''), GClose 1, Ch (\<lambda>c. c = CHR ''<'')]"

definition nameAndEmailTail :: "atom list" where
  \<comment> \<open>\<^verbatim>\<open>[\s\n]+([^<\n]+?)[\s\n]*<([^>\n]+)>\<close>, the common tail of the two patterns of step 3\<close>
  "nameAndEmailTail =
     [Greedy 1 isSpace,
      GOpen 1, Lazy 1 (\<lambda>c. c \<noteq> CHR ''<'' \<and> c \<noteq> LF), GClose 1,
      Greedy 0 isSpace,
      Ch (\<lambda>c. c = CHR ''<''),
      GOpen 2, Greedy 1 (\<lambda>c. c \<noteq> CHR ''>'' \<and> c \<noteq> LF), GClose 2,
      Ch (\<lambda>c. c = CHR ''>'')]"

definition standardPattern :: "atom list" where
  \<comment> \<open>\<^verbatim>\<open>/co[\-\s]authored[\-\s]by:[\s\n]+([^<\n]+?)[\s\n]*<([^>\n]+)>/gi\<close>\<close>
  "standardPattern =
     lit_i ''co'' @ [Ch (\<lambda>c. c = CHR ''-'' \<or> isSpace c)] @ lit_i ''authored'' @
     [Ch (\<lambda>c. c = CHR ''-'' \<or> isSpace c)] @ lit_i ''by:'' @ nameAndEmailTail"

definition alternatePattern :: "atom list" where
  \<comment> \<open>\<^verbatim>\<open>/co-author:[\s\n]+([^<\n]+?)[\s\n]*<([^>\n]+)>/gi\<close>\<close>
  "alternatePattern = lit_i ''co-author:'' @ nameAndEmailTail"

definition emailPattern :: "atom list" where
  \<comment> \<open>\<^verbatim>\<open>/\b([a-zA-Z0-9._%+-]+@[a-zA-Z0-9.-]+\.[a-zA-Z]{2,})\b/g\<close>\<close>
  "emailPattern =
     [WordB, GOpen 1,
      Greedy 1 (\<lambda>c. isAlnum c \<or> c \<in> set ''._%+-''),
      Ch (\<lambda>c. c = CHR ''@''),
      Greedy 1 (\<lambda>c. isAlnum c \<or> c \<in> set ''.-''),
      Ch (\<lambda>c. c = CHR ''.''),
      Greedy 2 (\<lambda>c. isLower c \<or> isUpper c),
      GClose 1, WordB]"

definition leadingUpToBracket :: "atom list" where
  \<comment> \<open>\<^verbatim>\<open>/^(.*?)</\<close>\<close>
  "leadingUpToBracket = [Bol, GOpen 1, Lazy 0 dot, GClose 1, Ch (\<lambda>c. c = CHR ''<'')]"

text \<open>
  \<^verbatim>\<open>const m = s.match(re); const name = m ? m[1].trim() : "";\<close>
\<close>

definition trimmed_group_or_empty :: "string \<Rightarrow> atom list \<Rightarrow> string" where
  "trimmed_group_or_empty s re =
     (case str_match s re of None \<Rightarrow> [] | Some r \<Rightarrow> trim (group r 1))"

text \<open>
  The body shared by step 1, step 2 and the last scan: the first bracketed e-mail of the
  text and the name found by the scan's own pattern.
\<close>

definition bracketed :: "source \<Rightarrow> atom list \<Rightarrow> string \<Rightarrow> coauthor list" where
  "bracketed src nameRe s =
     (case matched_group s emailBracket 1 of
        None \<Rightarrow> []
      | Some e \<Rightarrow>
          [\<lparr>ca_name = trimmed_group_or_empty s nameRe, ca_email = trim e, ca_source = src\<rparr>])"

definition step1 :: "string \<Rightarrow> coauthor list" where
  "step1 message =
     (if str_includes message ''Co-Authored-By:'' \<or> str_includes message ''Co-authored-by:'' \<or>
         str_includes message ''co-authored-by:'' \<or> str_includes message ''CO-AUTHORED-BY:''
      then concat (map (\<lambda>l. let line = trim l in
                              if regex_test coAuthoredBy_i line
                              then bracketed Step1 nameBeforeBracket line else [])
                    (split_on LF (replace_crlf [LF] message)))
      else [])"

text \<open>
  \<^verbatim>\<open>let pos = s.indexOf(marker); while (pos !== -1) { positions.push(pos); pos = s.indexOf(marker, pos + 1); }\<close>
\<close>

fun positions_from :: "string \<Rightarrow> string \<Rightarrow> nat \<Rightarrow> nat list" where
  "positions_from marker [] i = (if marker = [] then [i] else [])"
| "positions_from marker (c # cs) i =
     (if startsWith (c # cs) marker then i # positions_from marker cs (Suc i)
      else positions_from marker cs (Suc i))"

definition substring :: "string \<Rightarrow> nat \<Rightarrow> nat \<Rightarrow> string" where
  "substring s a b = take (b - a) (drop a s)"

fun sections :: "string \<Rightarrow> nat list \<Rightarrow> string list" where
  "sections s [] = []"
| "sections s [a] = [substring s a (length s)]"
| "sections s (a # b # ps) = substring s a b # sections s (b # ps)"

definition step2 :: "string \<Rightarrow> coauthor list" where
  "step2 message =
     (if str_includes message ''Co-Authored-By:''
      then (let rawMessage = replace_lf '' '' (replace_crlf '' '' message) in
            concat (map (bracketed Step2 nameAfterMarker)
                      (sections rawMessage (positions_from ''Co-Authored-By:'' rawMessage 0))))
      else [])"

definition step3 :: "string \<Rightarrow> coauthor list" where
  "step3 message =
     concat (map (\<lambda>pattern.
                map (\<lambda>r. \<lparr>ca_name = trim (group r 1), ca_email = trim (group r 2),
                          ca_source = Step3\<rparr>)
                  (matchAll message pattern))
             [standardPattern, alternatePattern])"

definition step4 :: "string \<Rightarrow> coauthor list" where
  "step4 message =
     concat (map (\<lambda>r. if group r 1 \<noteq> []
                       then [\<lparr>ca_name = [], ca_email = group r 1, ca_source = Step4\<rparr>] else [])
               (matchAll message emailPattern))"

definition desperate :: "string \<Rightarrow> coauthor list" where
  "desperate message =
     (let rawContent = replace_lf '' '' (replace_crlf '' '' message) in
      if str_includes rawContent ''Co-Authored-By:''
      then concat (map (bracketed Desperate leadingUpToBracket)
                     (tl (split_re rawContent coAuthoredBy_i)))
      else [])"

text \<open>
  \<^verbatim>\<open>coauthors.filter(author => ...)\<close> with the set \<^verbatim>\<open>uniqueEmails\<close> of lower-cased
  e-mails seen so far.
\<close>

fun uniqueCoauthors :: "string list \<Rightarrow> coauthor list \<Rightarrow> coauthor list" where
  "uniqueCoauthors uniqueEmails [] = []"
| "uniqueCoauthors uniqueEmails (author # rest) =
     (if ca_email author = [] \<or> toLowerCase (ca_email author) \<in> set uniqueEmails
      then uniqueCoauthors uniqueEmails rest
      else author # uniqueCoauthors (toLowerCase (ca_email author) # uniqueEmails) rest)"

definition allCandidates :: "string \<Rightarrow> coauthor list" where
  "allCandidates message =
     step1 message @ step2 message @ step3 message @ step4 message @ desperate message"

definition extractCoAuthors :: "string \<Rightarrow> coauthor list" where
  "extractCoAuthors message =
     (if message = [] then [] else uniqueCoauthors [] (allCandidates message))"

text \<open>
  Notions used to state properties of the extractor: a well-formed trailer line, the
  trimmed lines of a message as step 1 splits them, and the lower-cased e-mail of a
  candidate.
\<close>

definition trailer :: "string \<Rightarrow> string \<Rightarrow> string" where
  "trailer nm em = ''Co-Authored-By: '' @ nm @ '' <'' @ em @ ''>''"

definition lines_of :: "string \<Rightarrow> string list" where
  "lines_of message = map trim (split_on LF (replace_crlf [LF] message))"

definition lemail :: "coauthor \<Rightarrow> string" where
  "lemail c = toLowerCase (ca_email c)"

section \<open>Populating the registry\<close>

text \<open>What the repository data source returns for one repository.\<close>

record api_user =
  user_login :: "string option"
  user_avatar_url :: "string option"
  user_html_url :: "string option"

record api_contributor = api_user +
  user_contributions :: int

record api_commit =
  commit_message :: "string option"
  commit_author :: "api_user option"

record api_repo =
  repo_name :: string
  repo_pushed_recently :: bool
  repo_contributors :: "api_contributor list"
  repo_commits :: "api_commit list"

text \<open>
  The upsert keyed by the lower-cased login, used for listed contributors (with their
  contribution count) and for commit authors (with 1):
  \<^verbatim>\<open>if (!map.has(k)) map.set(k, {..., contributions: 0, repositories: new Set()});
  const c = map.get(k); c.contributions += n; c.repositories.add(repo.name);\<close>
\<close>

definition upsertLogin ::
  "string \<Rightarrow> string option \<Rightarrow> string option \<Rightarrow> int \<Rightarrow> string \<Rightarrow> registry \<Rightarrow> registry" where
  "upsertLogin l avatar html n repo reg =
     (let normalizedLogin = toLowerCase l;
          existing = (case Map_get reg normalizedLogin of
                        Some c \<Rightarrow> c
                      | None \<Rightarrow> \<lparr>login = l, email = None, avatar_url = avatar, html_url = html,
                                  contributions = 0, lines_contributed = 0, repositories = [],
                                  github_login = None, aliases = None,
                                  pending_github_lookup = False, matched_by_email = None,
                                  matched_by_name = None\<rparr>)
      in Map_set normalizedLogin
           (existing\<lparr>contributions := contributions existing + n,
                     repositories := Set_add repo (repositories existing)\<rparr>) reg)"

definition upsertDirect :: "string \<Rightarrow> registry \<Rightarrow> api_contributor \<Rightarrow> registry" where
  "upsertDirect repo reg c =
     (if truthy (user_login c)
      then upsertLogin (or_empty (user_login c)) (user_avatar_url c) (user_html_url c)
             (user_contributions c) repo reg
      else reg)"

definition upsertAuthor :: "string \<Rightarrow> registry \<Rightarrow> api_user option \<Rightarrow> registry" where
  "upsertAuthor repo reg author =
     (case author of
        None \<Rightarrow> reg
      | Some a \<Rightarrow>
          if truthy (user_login a)
          then upsertLogin (or_empty (user_login a)) (user_avatar_url a) (user_html_url a) 1 repo reg
          else reg)"

text \<open>
  The co-author upsert. First the search for a record with the same stored e-mail
  (\<^verbatim>\<open>data.email && data.email.toLowerCase() === normalizedEmail\<close>), in insertion order.
\<close>

definition sameEmail :: "contributor \<Rightarrow> string \<Rightarrow> bool" where
  "sameEmail data normalizedEmail =
     (truthy (email data) \<and> map_option toLowerCase (email data) = Some normalizedEmail)"

fun findByEmail :: "registry \<Rightarrow> string \<Rightarrow> (string \<times> contributor) option" where
  "findByEmail [] normalizedEmail = None"
| "findByEmail ((k, data) # rest) normalizedEmail =
     (if sameEmail data normalizedEmail then Some (k, data)
      else findByEmail rest normalizedEmail)"

lemma digit_char_inj:
  "0 \<le> a \<Longrightarrow> a < 10 \<Longrightarrow> 0 \<le> b \<Longrightarrow> b < 10 \<Longrightarrow> digit_char a = digit_char b \<Longrightarrow> a = b"
proof -
  assume a: "0 \<le> a" "a < 10" and b: "0 \<le> b" "b < 10" and eq: "digit_char a = digit_char b"
  have d: "distinct ''0123456789''" by simp
  have "nat a < length ''0123456789''" "nat b < length ''0123456789''"
    using a b by simp_all
  with d eq have "nat a = nat b"
    unfolding digit_char_def by (simp only: nth_eq_iff_index_eq)
  with a b show "a = b" by simp
qed

lemma show_int_nonempty: "show_int n \<noteq> []"
  by (subst show_int.simps) simp

lemma show_int_single: "length (show_int n) = Suc 0 \<longleftrightarrow> n < 10"
proof (cases "n < 10")
  case True
  then show ?thesis by (subst show_int.simps) simp
next
  case False
  then have "length (show_int n) = length (show_int (n div 10)) + 1"
    by (subst show_int.simps) simp
  moreover have "length (show_int (n div 10)) > 0"
    using show_int_nonempty by simp
  ultimately show ?thesis using False by simp
qed

lemma show_int_inj:
  "0 \<le> n \<Longrightarrow> 0 \<le> m \<Longrightarrow> show_int n = show_int m \<Longrightarrow> n = m"
proof (induction n arbitrary: m rule: show_int.induct)
  case (1 n)
  show ?case
  proof (cases "n < 10")
    case True
    then have "length (show_int m) = Suc 0" using show_int_single [of n] "1.prems"(3) by simp
    then have m: "m < 10" by (simp add: show_int_single)
    have "show_int n = [digit_char n]" "show_int m = [digit_char m]"
      using True m by (subst show_int.simps, simp)+
    with "1.prems" True m show ?thesis by (auto dest: digit_char_inj)
  next
    case False
    then have "length (show_int m) \<noteq> Suc 0" using show_int_single [of n] "1.prems"(3) by simp
    then have m: "\<not> m < 10" by (simp add: show_int_single)
    have "show_int n = show_int (n div 10) @ [digit_char (n mod 10)]"
      "show_int m = show_int (m div 10) @ [digit_char (m mod 10)]"
      using False m by (subst show_int.simps, simp)+
    with "1.prems"(3) have eq: "show_int (n div 10) = show_int (m div 10)"
      "digit_char (n mod 10) = digit_char (m mod 10)"
      by simp_all
    have "n div 10 = m div 10"
      using "1.IH" [OF False _ _ eq(1)] "1.prems"(1,2) by simp
    moreover have "n mod 10 = m mod 10"
      using eq(2) by (intro digit_char_inj) simp_all
    ultimately have "n div 10 * 10 + n mod 10 = m div 10 * 10 + m mod 10" by simp
    then show ?thesis by (simp only: div_mult_mod_eq)
  qed
qed

lemma Map_has_keys: "Map_has m k \<longleftrightarrow> k \<in> fst ` set m"
  unfolding Map_has_def by (induction m) (auto split: if_splits)

text \<open>\<^verbatim>\<open>`${username}-${counter}`\<close>\<close>

definition numbered :: "string \<Rightarrow> nat \<Rightarrow> string" where
  "numbered username counter = username @ ''-'' @ show_int (int counter)"

lemma numbered_inj: "numbered u a = numbered u b \<Longrightarrow> a = b"
  using show_int_inj [of "int a" "int b"] by (simp add: numbered_def)

lemma taken_finite: "finite {j. c \<le> j \<and> numbered u j \<in> K}" if "finite K"
proof -
  have "inj (numbered u)" by (auto simp: inj_def dest: numbered_inj)
  then have "finite (numbered u -` K)" using that by (simp add: finite_vimageI)
  moreover have "{j. c \<le> j \<and> numbered u j \<in> K} \<subseteq> numbered u -` K" by auto
  ultimately show ?thesis by (rule rev_finite_subset)
qed

text \<open>
  \<^verbatim>\<open>while (contributorsMap.has(finalUsername)) { finalUsername = `${username}-${counter}`; counter++; }\<close>
  after the first iteration. The loop stops because the numbered keys are pairwise
  different and the registry is finite.
\<close>

function nextFree :: "registry \<Rightarrow> string \<Rightarrow> nat \<Rightarrow> string" where
  "nextFree reg username counter =
     (if Map_has reg (numbered username counter)
      then nextFree reg username (counter + 1)
      else numbered username counter)"
  by pat_completeness auto
termination
proof (relation "measure (\<lambda>(reg, u, c). card {j. c \<le> j \<and> numbered u j \<in> fst ` set reg})")
  show "wf (measure (\<lambda>(reg, u, c). card {j. c \<le> j \<and> numbered u j \<in> fst ` set reg}))"
    by simp
next
  fix reg :: registry and username counter
  assume has: "Map_has reg (numbered username counter)"
  let ?S = "\<lambda>c. {j. c \<le> j \<and> numbered username j \<in> fst ` set reg}"
  have fin: "finite (?S counter)" by (rule taken_finite) simp
  have "numbered username counter \<in> fst ` set reg"
    using has by (simp add: Map_has_keys)
  then have mem: "counter \<in> ?S counter" by simp
  have "?S (counter + 1) = ?S counter - {counter}" by auto
  moreover have "card (?S counter - {counter}) < card (?S counter)"
    using fin mem by (rule card_Diff1_less)
  ultimately have "card (?S (counter + 1)) < card (?S counter)"
    by (simp only:)
  then show "((reg, username, counter + 1), (reg, username, counter))
      \<in> measure (\<lambda>(reg, u, c). card {j. c \<le> j \<and> numbered u j \<in> fst ` set reg})"
    by simp
qed

declare nextFree.simps [simp del]

text \<open>
  The key of a new co-author record: the cleaned name (or e-mail local part), replaced
  by \<^verbatim>\<open>contributor-${contributorsMap.size + 1}\<close> when shorter than two characters, then
  numbered until it is free.
\<close>

definition baseUsername :: "registry \<Rightarrow> string \<Rightarrow> string \<Rightarrow> string" where
  "baseUsername reg nm mail =
     (let username = (if nm = [] \<or> trim nm = [] then local_part mail else nm);
          username = clean (trim username)
      in if length username < 2
         then ''contributor-'' @ show_int (int (length reg) + 1)
         else username)"

definition finalUsername :: "registry \<Rightarrow> string \<Rightarrow> string" where
  "finalUsername reg username =
     (if Map_has reg username then nextFree reg username 1 else username)"

definition newCoAuthor :: "string \<Rightarrow> string \<Rightarrow> string \<Rightarrow> string \<Rightarrow> contributor" where
  "newCoAuthor key nm mail repo =
     \<lparr>login = (if nm \<noteq> [] then nm else local_part mail),
      email = Some mail,
      avatar_url = Some (''https://github.com/identicons/'' @ key @ ''.png''),
      html_url = Some (''mailto:'' @ mail),
      contributions = 1, lines_contributed = 0, repositories = [repo],
      github_login = None, aliases = None, pending_github_lookup = True,
      matched_by_email = None, matched_by_name = None\<rparr>"

definition upsertCoAuthor :: "string \<Rightarrow> registry \<Rightarrow> coauthor \<Rightarrow> registry" where
  "upsertCoAuthor repo reg ca =
     (let normalizedEmail = toLowerCase (ca_email ca) in
      case findByEmail reg normalizedEmail of
        Some (k, data) \<Rightarrow>
          Map_set k (data\<lparr>contributions := contributions data + 1,
                          repositories := Set_add repo (repositories data)\<rparr>) reg
      | None \<Rightarrow>
          (let key = finalUsername reg (baseUsername reg (ca_name ca) (ca_email ca))
           in Map_set key (newCoAuthor key (ca_name ca) (ca_email ca) repo) reg))"

text \<open>
  \<^verbatim>\<open>if (email && email.includes('@')) coAuthorEmails.add(email.toLowerCase());\<close>
\<close>

definition collectEmail :: "string list \<Rightarrow> coauthor \<Rightarrow> string list" where
  "collectEmail coAuthorEmails ca =
     (if ca_email ca \<noteq> [] \<and> str_includes (ca_email ca) ''@''
      then Set_add (toLowerCase (ca_email ca)) coAuthorEmails
      else coAuthorEmails)"

text \<open>
  One commit: skipped without a message; otherwise the author upsert and the co-author
  upserts. The state is the registry and the set \<^verbatim>\<open>coAuthorEmails\<close>.
\<close>

definition processCommit ::
  "string \<Rightarrow> registry \<times> string list \<Rightarrow> api_commit \<Rightarrow> registry \<times> string list" where
  "processCommit repo st commit =
     (if \<not> truthy (commit_message commit) then st
      else
        let coAuthors = extractCoAuthors (or_empty (commit_message commit)) in
        (foldl (upsertCoAuthor repo) (upsertAuthor repo (fst st) (commit_author commit)) coAuthors,
         foldl collectEmail (snd st) coAuthors))"

definition processRepo :: "registry \<times> string list \<Rightarrow> api_repo \<Rightarrow> registry \<times> string list" where
  "processRepo st repo =
     foldl (processCommit (repo_name repo))
       (foldl (upsertDirect (repo_name repo)) (fst st) (repo_contributors repo), snd st)
       (repo_commits repo)"

text \<open>
  The processing order: the main repository and the recently pushed ones first, then
  the rest, each group in the order of the listing.
\<close>

definition allReposInProcessOrder :: "api_repo list \<Rightarrow> api_repo list" where
  "allReposInProcessOrder allRepos =
     (let primaryRepos = filter (\<lambda>repo. repo_name repo = ''OmniCloud-Full'' \<or>
                                       repo_pushed_recently repo) allRepos;
          remainingRepos = filter (\<lambda>repo. \<not> list_ex (\<lambda>p. repo_name p = repo_name repo)
                                              primaryRepos) allRepos
      in primaryRepos @ remainingRepos)"

definition populate :: "api_repo list \<Rightarrow> registry \<times> string list" where
  "populate allRepos = foldl processRepo ([], []) (allReposInProcessOrder allRepos)"

section \<open>Verification pass and duplicate discovery\<close>

record duplicate =
  dup_type :: match_type
  dup_key :: string
  dup_logins :: "string list"

text \<open>What the external identity resolver found for an e-mail address.\<close>

record github_user =
  gh_login :: string
  gh_avatar_url :: "string option"
  gh_html_url :: "string option"

text \<open>
  \<^verbatim>\<open>for (const [login, data] of contributorsMap.entries()) if (data.email &&
  data.pending_github_lookup) { const githubUser = emailToGitHubUser.get(...); ... }\<close>
\<close>

definition applyLookup :: "(string \<times> github_user) list \<Rightarrow> contributor \<Rightarrow> contributor" where
  "applyLookup emailToGitHubUser data =
     (if truthy (email data) \<and> pending_github_lookup data
      then (case Map_get emailToGitHubUser (toLowerCase (or_empty (email data))) of
              None \<Rightarrow> data
            | Some githubUser \<Rightarrow>
                data\<lparr>github_login := Some (gh_login githubUser),
                     avatar_url := gh_avatar_url githubUser,
                     html_url := gh_html_url githubUser,
                     matched_by_email := Some True,
                     pending_github_lookup := False\<rparr>)
      else data)"

definition verificationPass :: "(string \<times> github_user) list \<Rightarrow> registry \<Rightarrow> registry" where
  "verificationPass emailToGitHubUser reg =
     map (\<lambda>kv. (fst kv, applyLookup emailToGitHubUser (snd kv))) reg"

text \<open>
  \<^verbatim>\<open>if (!m.has(k)) m.set(k, []); m.get(k).push(login);\<close> on a map from strings to lists
  of logins.
\<close>

definition push_login :: "string \<Rightarrow> string \<Rightarrow> (string \<times> string list) list \<Rightarrow> (string \<times> string list) list" where
  "push_login k l m =
     Map_set k ((case Map_get m k of None \<Rightarrow> [] | Some ls \<Rightarrow> ls) @ [l]) m"

definition loginMap :: "registry \<Rightarrow> (string \<times> string list) list" where
  "loginMap reg =
     foldl (\<lambda>m kv. if truthy (email (snd kv))
                    then push_login (toLowerCase (or_empty (email (snd kv)))) (fst kv) m
                    else m) [] reg"

definition githubUserMap :: "registry \<Rightarrow> (string \<times> string list) list" where
  "githubUserMap reg =
     foldl (\<lambda>m kv. if truthy (github_login (snd kv))
                    then push_login (toLowerCase (or_empty (github_login (snd kv)))) (fst kv) m
                    else m) [] reg"

definition normalizeName :: "string \<Rightarrow> string" where
  "normalizeName name = trim (clean name)"

definition possibleNames :: "string \<Rightarrow> contributor \<Rightarrow> string list" where
  "possibleNames l data =
     [normalizeName l]
     @ (if login data \<noteq> [] then [normalizeName (login data)] else [])
     @ (if truthy (github_login data) then [normalizeName (or_empty (github_login data))] else [])
     @ (if truthy (email data) \<and> str_includes (or_empty (email data)) ''@''
        then [normalizeName (local_part (or_empty (email data)))] else [])"

definition nameMap :: "registry \<Rightarrow> (string \<times> string list) list" where
  "nameMap reg =
     foldl (\<lambda>m kv.
              foldl (\<lambda>m name. if length name > 2 then push_login name (fst kv) m else m) m
                (foldl (\<lambda>ns n. Set_add n ns) [] (possibleNames (fst kv) (snd kv))))
       [] reg"

definition groupsOf :: "match_type \<Rightarrow> (string \<times> string list) list \<Rightarrow> duplicate list" where
  "groupsOf type m =
     map (\<lambda>kv. \<lparr>dup_type = type, dup_key = fst kv, dup_logins = snd kv\<rparr>)
       (filter (\<lambda>kv. length (snd kv) > 1) m)"

text \<open>
  A name group is added unless an earlier entry of \<^verbatim>\<open>duplicates\<close> has as many logins,
  all of them in the group.
\<close>

definition addSimilarName :: "duplicate list \<Rightarrow> string \<times> string list \<Rightarrow> duplicate list" where
  "addSimilarName duplicates kv =
     (if length (snd kv) > 1
      then (if list_ex (\<lambda>dup. length (dup_logins dup) = length (snd kv) \<and>
                              list_all (\<lambda>l. l \<in> set (snd kv)) (dup_logins dup)) duplicates
            then duplicates
            else duplicates @ [\<lparr>dup_type = SimilarName, dup_key = fst kv, dup_logins = snd kv\<rparr>])
      else duplicates)"

definition findDuplicates :: "registry \<Rightarrow> duplicate list" where
  "findDuplicates reg =
     foldl addSimilarName
       (groupsOf Email (loginMap reg) @ groupsOf GithubLogin (githubUserMap reg))
       (nameMap reg)"

section \<open>Double-precision numbers\<close>

text \<open>
  A JavaScript number is an IEEE 754 binary64 value. Every finite double is a rational
  number, and the result of \<^verbatim>\<open>+\<close>, \<^verbatim>\<open>-\<close> and \<^verbatim>\<open>*\<close> on doubles is the exact result
  rounded to the nearest double, a tie going to the even significand. \<open>to_double\<close> rounds a
  rational number to 53 significant bits in that way; it is the binary64 rounding for every
  result in the normal range (magnitude from \<^verbatim>\<open>2^-1022\<close> up to the largest double), and
  gradual underflow and overflow are not modelled. The numbers of the scoring below are
  contribution counts, the literal \<^verbatim>\<open>0.1\<close>, the weights 100, 50, 30, 20 and 5, and sums and
  differences of those, which are zero or in the normal range.
\<close>

definition pow2 :: "int \<Rightarrow> rat" where
  "pow2 e = (if 0 \<le> e then 2 ^ nat e else 1 / 2 ^ nat (- e))"

text \<open>For \<open>x > 0\<close>, the \<open>e\<close> with \<^verbatim>\<open>2^e <= x < 2^(e+1)\<close>.\<close>

definition exponent :: "rat \<Rightarrow> int" where
  "exponent x =
     (let d = bitlen (fst (quotient_of x)) - bitlen (snd (quotient_of x))
      in if pow2 d \<le> x then d else d - 1)"

definition round_half_even :: "rat \<Rightarrow> int" where
  "round_half_even q =
     (let n = \<lfloor>q\<rfloor>; r = q - of_int n
      in if r < 1 / 2 then n
         else if 1 / 2 < r then n + 1
         else if even n then n else n + 1)"

definition to_double :: "rat \<Rightarrow> rat" where
  "to_double x =
     (if x = 0 then 0
      else let ulp = pow2 (exponent \<bar>x\<bar> - 52)
           in of_int (round_half_even (x / ulp)) * ulp)"

definition dadd :: "rat \<Rightarrow> rat \<Rightarrow> rat" where
  "dadd a b = to_double (a + b)"

definition dsub :: "rat \<Rightarrow> rat \<Rightarrow> rat" where
  "dsub a b = to_double (a - b)"

definition dmul :: "rat \<Rightarrow> rat \<Rightarrow> rat" where
  "dmul a b = to_double (a * b)"

section \<open>Deduplication: scoring and merging a match-set\<close>

text \<open>
  The score of one login of a match-set (\<^verbatim>\<open>loginScores\<close>), accumulated with \<^verbatim>\<open>+=\<close> on
  doubles in the order of the script: \<^verbatim>\<open>let score = 0; score += data.contributions * 0.1;
  if (data.github_login) score += 100; ...\<close>. The literal \<^verbatim>\<open>0.1\<close> is the double nearest to
  one tenth.
\<close>

definition loginScore :: "string \<Rightarrow> contributor \<Rightarrow> rat" where
  "loginScore l data =
     (let score = 0;
          score = dadd score
                    (dmul (to_double (of_int (contributions data))) (to_double (1 / 10)));
          score = (if truthy (github_login data) then dadd score 100 else score);
          score = (if truthy (github_login data) \<and>
                      Some (toLowerCase l) = map_option toLowerCase (github_login data)
                   then dadd score 50 else score);
          score = (if truthy (avatar_url data) \<and>
                      (case avatar_url data of
                         None \<Rightarrow> False
                       | Some a \<Rightarrow> str_includes a ''github'')
                   then dadd score 30 else score);
          score = (if \<not> str_includes l ''contributor-'' then dadd score 20 else score);
          score = (if \<not> str_includes l '' '' then dadd score 5 else score)
      in score)"

text \<open>
  The score as the specification words it: the same weights added as exact numbers, 0.1
  per contribution being one tenth.
\<close>

definition exactScore :: "string \<Rightarrow> contributor \<Rightarrow> rat" where
  "exactScore l data =
     of_int (contributions data) / 10
     + (if truthy (github_login data) then 100 else 0)
     + (if truthy (github_login data) \<and>
           Some (toLowerCase l) = map_option toLowerCase (github_login data) then 50 else 0)
     + (if truthy (avatar_url data) \<and>
           (case avatar_url data of None \<Rightarrow> False | Some a \<Rightarrow> str_includes a ''github'')
        then 30 else 0)
     + (if \<not> str_includes l ''contributor-'' then 20 else 0)
     + (if \<not> str_includes l '' '' then 5 else 0)"

text \<open>\<^verbatim>\<open>validLogins.map(login => { const data = contributorsMap.get(login); ... })\<close>\<close>

fun loginScores :: "registry \<Rightarrow> string list \<Rightarrow> js_error + (string \<times> rat) list" where
  "loginScores reg [] = Inr []"
| "loginScores reg (l # ls) =
     (case Map_get reg l of
        None \<Rightarrow> Inl TypeError
      | Some data \<Rightarrow>
          (case loginScores reg ls of
             Inl e \<Rightarrow> Inl e
           | Inr rest \<Rightarrow> Inr ((l, loginScore l data) # rest)))"

text \<open>
  \<^verbatim>\<open>Array.prototype.sort\<close> with a comparator is a stable sort: \<open>a\<close> stays in front of
  a later \<open>b\<close> unless the comparator puts \<open>b\<close> first (\<open>cmp a b > 0\<close>).
\<close>

fun insert_by :: "('a \<Rightarrow> 'a \<Rightarrow> rat) \<Rightarrow> 'a \<Rightarrow> 'a list \<Rightarrow> 'a list" where
  "insert_by cmp a [] = [a]"
| "insert_by cmp a (b # bs) = (if cmp a b \<le> 0 then a # b # bs else b # insert_by cmp a bs)"

definition sort_by :: "('a \<Rightarrow> 'a \<Rightarrow> rat) \<Rightarrow> 'a list \<Rightarrow> 'a list" where
  "sort_by cmp xs = foldr (insert_by cmp) xs []"

text \<open>The body of \<^verbatim>\<open>for (const login of validLogins)\<close> for one absorbed record.\<close>

definition absorbRecord ::
  "match_type \<Rightarrow> string \<Rightarrow> contributor \<Rightarrow> merged_alias list \<Rightarrow> contributor \<Rightarrow> contributor" where
  "absorbRecord type l data as primaryData =
     (let p1 = primaryData
            \<lparr>aliases := Some (as @ [\<lparr>alias_login = l, alias_type = type,
                 alias_contributions = contributions data,
                 alias_repositories = repositories data\<rparr>]),
             contributions := contributions primaryData + contributions data,
             repositories := foldl (\<lambda>rs r. Set_add r rs) (repositories primaryData)
                                (repositories data)\<rparr>;
          p2 = (if truthy (github_login data) \<and> \<not> truthy (github_login p1)
                then p1\<lparr>github_login := github_login data,
                        avatar_url := avatar_url data,
                        html_url := html_url data,
                        matched_by_email := Some (type = Email),
                        matched_by_name := Some (type = SimilarName)\<rparr>
                else p1);
          githubusercontent = (\<lambda>a. case a of None \<Rightarrow> False
                                 | Some u \<Rightarrow> u \<noteq> [] \<and> str_includes u ''githubusercontent.com'')
      in if githubusercontent (avatar_url data) \<and> \<not> githubusercontent (avatar_url p2)
         then p2\<lparr>avatar_url := avatar_url data\<rparr>
         else p2)"

fun absorb ::
  "match_type \<Rightarrow> string \<Rightarrow> string list \<Rightarrow> registry \<times> string set
     \<Rightarrow> js_error + registry \<times> string set" where
  "absorb type primaryLogin [] st = Inr st"
| "absorb type primaryLogin (l # ls) st =
     (if l = primaryLogin then absorb type primaryLogin ls st
      else case Map_get (fst st) l of
        None \<Rightarrow> Inl TypeError
      | Some data \<Rightarrow>
          (case Map_get (fst st) primaryLogin of
             None \<Rightarrow> Inl TypeError
           | Some primaryData \<Rightarrow>
               (case aliases primaryData of
                  None \<Rightarrow> Inl TypeError
                | Some as \<Rightarrow>
                    absorb type primaryLogin ls
                      (Map_delete l
                         (Map_set primaryLogin (absorbRecord type l data as primaryData) (fst st)),
                       insert l (snd st)))))"

text \<open>One round of \<^verbatim>\<open>for (const { type, key, logins } of duplicates)\<close>.\<close>

definition validLogins :: "registry \<Rightarrow> string set \<Rightarrow> string list \<Rightarrow> string list" where
  "validLogins reg mergedLogins logins =
     filter (\<lambda>l. Map_has reg l \<and> l \<notin> mergedLogins) logins"

text \<open>
  \<^verbatim>\<open>loginScores.sort((a, b) => b.score - a.score); primaryLogin = loginScores[0].login\<close>.
  The comparator subtracts doubles.
\<close>

definition choosePrimaryLogin :: "registry \<Rightarrow> string list \<Rightarrow> js_error + string" where
  "choosePrimaryLogin reg valid =
     (case loginScores reg valid of
        Inl e \<Rightarrow> Inl e
      | Inr scores \<Rightarrow>
          (case sort_by (\<lambda>a b. dsub (snd b) (snd a)) scores of
             [] \<Rightarrow> Inl TypeError
           | best # _ \<Rightarrow> Inr (fst best)))"

definition mergeDuplicate ::
  "duplicate \<Rightarrow> registry \<times> string set \<Rightarrow> js_error + registry \<times> string set" where
  "mergeDuplicate d st =
     (let reg = fst st; mergedLogins = snd st in
      if list_all (\<lambda>l. l \<in> mergedLogins \<or> \<not> Map_has reg l) (dup_logins d) then Inr st
      else
        let valid = validLogins reg mergedLogins (dup_logins d) in
        if length valid \<le> 1 then Inr st
        else
          (case choosePrimaryLogin reg valid of
             Inl e \<Rightarrow> Inl e
           | Inr primaryLogin \<Rightarrow>
               (case Map_get reg primaryLogin of
                  None \<Rightarrow> Inl TypeError
                | Some primaryData \<Rightarrow>
                    absorb (dup_type d) primaryLogin valid
                      (if aliases primaryData = None
                       then Map_set primaryLogin (primaryData\<lparr>aliases := Some []\<rparr>) reg
                       else reg,
                       mergedLogins))))"

fun mergeDuplicates ::
  "duplicate list \<Rightarrow> registry \<times> string set \<Rightarrow> js_error + registry \<times> string set" where
  "mergeDuplicates [] st = Inr st"
| "mergeDuplicates (d # ds) st =
     (case mergeDuplicate d st of Inl e \<Rightarrow> Inl e | Inr st' \<Rightarrow> mergeDuplicates ds st')"

text \<open>
  The contributor part of \<^verbatim>\<open>collectMetrics\<close>: population, verification, the merge of
  the discovered duplicates, and the list sorted by descending contributions
  (\<^verbatim>\<open>allContributors\<close>).
\<close>

definition deduplicate :: "registry \<Rightarrow> js_error + registry" where
  "deduplicate reg =
     (case mergeDuplicates (findDuplicates reg) (reg, {}) of
        Inl e \<Rightarrow> Inl e
      | Inr st \<Rightarrow> Inr (fst st))"

definition allContributors ::
  "(string \<times> github_user) list \<Rightarrow> api_repo list \<Rightarrow> js_error + contributor list" where
  "allContributors emailToGitHubUser allRepos =
     (case deduplicate (verificationPass emailToGitHubUser (fst (populate allRepos))) of
        Inl e \<Rightarrow> Inl e
      | Inr reg \<Rightarrow>
          Inr (sort_by (\<lambda>a b. of_int (contributions b) - of_int (contributions a))
                 (map snd reg)))"

text \<open>
  Observers used to state properties: \<^verbatim>\<open>sum(record.contributions)\<close> over the live
  records, and the fields of the record stored under a key (with the value of an absent
  key written out).
\<close>

definition total_contributions :: "registry \<Rightarrow> int" where
  "total_contributions reg = sum_list (map (\<lambda>kv. contributions (snd kv)) reg)"

definition contributions_of :: "registry \<Rightarrow> string \<Rightarrow> int" where
  "contributions_of reg k = (case Map_get reg k of None \<Rightarrow> 0 | Some d \<Rightarrow> contributions d)"

definition repositories_of :: "registry \<Rightarrow> string \<Rightarrow> string list" where
  "repositories_of reg k = (case Map_get reg k of None \<Rightarrow> [] | Some d \<Rightarrow> repositories d)"

definition aliases_of :: "registry \<Rightarrow> string \<Rightarrow> merged_alias list" where
  "aliases_of reg k =
     (case Map_get reg k of
        None \<Rightarrow> []
      | Some d \<Rightarrow> (case aliases d of None \<Rightarrow> [] | Some as \<Rightarrow> as))"

text \<open>
  What one repository without co-author candidates adds to the record with key \<open>k\<close>: the
  contribution counts of its listed contributors and one per authored commit with that
  lower-cased login.
\<close>

definition key_of :: "string option \<Rightarrow> string option" where
  "key_of l = (if truthy l then Some (toLowerCase (or_empty l)) else None)"

definition contributor_delta :: "string \<Rightarrow> api_contributor \<Rightarrow> int" where
  "contributor_delta k c = (if key_of (user_login c) = Some k then user_contributions c else 0)"

definition author_key :: "api_commit \<Rightarrow> string option" where
  "author_key commit =
     (if truthy (commit_message commit)
      then (case commit_author commit of None \<Rightarrow> None | Some a \<Rightarrow> key_of (user_login a))
      else None)"

definition commit_delta :: "string \<Rightarrow> api_commit \<Rightarrow> int" where
  "commit_delta k commit = (if author_key commit = Some k then 1 else 0)"

definition repo_delta :: "string \<Rightarrow> api_repo \<Rightarrow> int" where
  "repo_delta k r =
     sum_list (map (contributor_delta k) (repo_contributors r)) +
     sum_list (map (commit_delta k) (repo_commits r))"

definition repo_touches :: "string \<Rightarrow> api_repo \<Rightarrow> bool" where
  "repo_touches k r =
     (list_ex (\<lambda>c. key_of (user_login c) = Some k) (repo_contributors r) \<or>
      list_ex (\<lambda>commit. author_key commit = Some k) (repo_commits r))"

definition no_coauthors :: "api_repo \<Rightarrow> bool" where
  "no_coauthors r =
     list_all (\<lambda>commit. extractCoAuthors (or_empty (commit_message commit)) = [])
       (repo_commits r)"

text \<open>
  The effect of a processing step on the record with key \<open>k\<close>: whether the key exists
  afterwards, what was added to its contributions and which repositories were added.
\<close>

definition eff :: "registry \<Rightarrow> registry \<Rightarrow> string \<Rightarrow> bool \<Rightarrow> int \<Rightarrow> string set \<Rightarrow> bool" where
  "eff reg reg' k t n R \<longleftrightarrow>
     Map_has reg' k = (Map_has reg k \<or> t) \<and>
     contributions_of reg' k = contributions_of reg k + n \<and>
     set (repositories_of reg' k) = set (repositories_of reg k) \<union> R"

definition score_of :: "registry \<Rightarrow> string \<Rightarrow> rat" where
  "score_of reg k = (case Map_get reg k of None \<Rightarrow> 0 | Some d \<Rightarrow> loginScore k d)"

definition alias_for :: "match_type \<Rightarrow> registry \<Rightarrow> string \<Rightarrow> merged_alias" where
  "alias_for ty reg l = \<lparr>alias_login = l, alias_type = ty,
     alias_contributions = contributions_of reg l,
     alias_repositories = repositories_of reg l\<rparr>"

section \<open>Example data\<close>

text \<open>Two heuristic records for the same e-mail address, as the uniquified keys leave them.\<close>

definition ex_alice :: contributor where
  "ex_alice = \<lparr>login = ''alice'', email = Some ''a@x.com'',
     avatar_url = Some ''https://github.com/identicons/alice.png'',
     html_url = Some ''mailto:a@x.com'', contributions = 3, lines_contributed = 0,
     repositories = [''r1''], github_login = None, aliases = None,
     pending_github_lookup = True, matched_by_email = None, matched_by_name = None\<rparr>"

definition ex_alice1 :: contributor where
  "ex_alice1 = \<lparr>login = ''alice'', email = Some ''a@x.com'',
     avatar_url = Some ''https://github.com/identicons/alice-1.png'',
     html_url = Some ''mailto:a@x.com'', contributions = 2, lines_contributed = 0,
     repositories = [''r2''], github_login = None, aliases = None,
     pending_github_lookup = True, matched_by_email = None, matched_by_name = None\<rparr>"

definition ex_message :: string where
  "ex_message = ''Co-Authored-By: Al <a@b.co>'' @ [LF] @ ''Co-Authored-By: Bo <c@d.io>''"

definition ex_r1 :: api_repo where
  "ex_r1 = \<lparr>repo_name = ''r1'', repo_pushed_recently = False,
     repo_contributors = [\<lparr>user_login = Some ''al'', user_avatar_url = None,
        user_html_url = None, user_contributions = 5\<rparr>],
     repo_commits = []\<rparr>"

definition ex_r2 :: api_repo where
  "ex_r2 = \<lparr>repo_name = ''r2'', repo_pushed_recently = False,
     repo_contributors = [],
     repo_commits = [\<lparr>commit_message = Some ''Co-Authored-By: Al <zz@x.io>'',
        commit_author = None\<rparr>]\<rparr>"

definition ex_r3 :: api_repo where
  "ex_r3 = \<lparr>repo_name = ''r3'', repo_pushed_recently = True,
     repo_contributors = [\<lparr>user_login = Some ''Al'', user_avatar_url = None,
        user_html_url = None, user_contributions = 2\<rparr>],
     repo_commits = [\<lparr>commit_message = Some ''fix'',
        commit_author = Some \<lparr>user_login = Some ''bo'', user_avatar_url = None,
          user_html_url = None\<rparr>\<rparr>]\<rparr>"

definition ex_direct :: contributor where
  "ex_direct = \<lparr>login = ''Alice'', email = None,
     avatar_url = Some ''https://avatars.githubusercontent.com/u/1'',
     html_url = Some ''https://github.com/Alice'', contributions = 5, lines_contributed = 0,
     repositories = [''r1''], github_login = None, aliases = None,
     pending_github_lookup = False, matched_by_email = None, matched_by_name = None\<rparr>"

definition ex_registry :: registry where
  "ex_registry = [(''alice'', ex_alice), (''alice-1'', ex_alice1)]"

text \<open>A second heuristic record with the contribution count and avatar host of the first.\<close>

definition ex_alicia :: contributor where
  "ex_alicia = \<lparr>login = ''alicia'', email = Some ''alicia@x.com'',
     avatar_url = Some ''https://github.com/identicons/alicia.png'',
     html_url = Some ''mailto:alicia@x.com'', contributions = 3, lines_contributed = 0,
     repositories = [''r2''], github_login = None, aliases = None,
     pending_github_lookup = True, matched_by_email = None, matched_by_name = None\<rparr>"

definition ex_tie_registry :: registry where
  "ex_tie_registry = [(''alice'', ex_alice), (''alicia'', ex_alicia)]"

text \<open>
  A co-author record with one contribution that the identity lookup resolved to the
  handle \<^verbatim>\<open>sam-lee\<close>, and the listed contributor \<^verbatim>\<open>sam-lee\<close> with 1001 contributions.
\<close>

definition ex_samlee :: contributor where
  "ex_samlee = \<lparr>login = ''samlee'', email = Some ''sam@x.com'',
     avatar_url = Some ''https://avatars.githubusercontent.com/u/7'',
     html_url = Some ''https://github.com/sam-lee'', contributions = 1, lines_contributed = 0,
     repositories = [''r1''], github_login = Some ''sam-lee'', aliases = None,
     pending_github_lookup = False, matched_by_email = Some True, matched_by_name = None\<rparr>"

definition ex_sam_lee :: contributor where
  "ex_sam_lee = \<lparr>login = ''sam-lee'', email = None,
     avatar_url = Some ''https://avatars.githubusercontent.com/u/7'',
     html_url = Some ''https://github.com/sam-lee'', contributions = 1001,
     lines_contributed = 0, repositories = [''r2''], github_login = None, aliases = None,
     pending_github_lookup = False, matched_by_email = None, matched_by_name = None\<rparr>"

definition ex_sam_registry :: registry where
  "ex_sam_registry = [(''samlee'', ex_samlee), (''sam-lee'', ex_sam_lee)]"

section \<open>Properties of the history update\<close>

lemma slice_from_nonneg:
  "0 \<le> k \<Longrightarrow> slice_from k xs = drop (nat k) xs"
  by (cases "k \<le> int (length xs)") (simp_all add: slice_from_def Let_def min_def)

lemma slice_from_neg:
  "k < 0 \<Longrightarrow> slice_from k xs = drop (length xs - nat (- k)) xs"
proof -
  assume k: "k < 0"
  have "nat (max (int (length xs) + k) 0) = length xs - nat (- k)"
    using k by linarith
  with k show ?thesis by (simp add: slice_from_def Let_def)
qed

lemma keep_last_100:
  "(if length xs > 100 then slice_from (int (length xs) - 100) xs else xs)
     = drop (length xs - 100) xs"
  by (simp add: slice_from_nonneg nat_diff_distrib')

lemma keep_last_100_neg:
  "(if length xs > 100 then slice_from (- 100) xs else xs) = drop (length xs - 100) xs"
  by (simp add: slice_from_neg)

lemma history_step_eq: "history_step f m = updateHistory f m"
  unfolding history_step_def updateHistory_def Let_def
    keep_last_100 keep_last_100_neg ..

lemma coauthor_processing_throws: "coauthor_processing = Inl ReferenceError"
  by (simp add: coauthor_processing_def read_identifier_def bindings_in_scope_def)

lemma collectMetrics_history_throws: "collectMetrics_history f m = Inl ReferenceError"
  by (simp add: collectMetrics_history_def coauthor_processing_throws)

lemma updateHistory_array:
  "loadHistory f = JArr old \<Longrightarrow>
   updateHistory f m = Inr (drop (length old + 1 - 100) (old @ [historicalEntry m]))"
  unfolding updateHistory_def Let_def keep_last_100 by simp

lemma updateHistory_Inr_iff:
  "(\<exists>h. updateHistory f m = Inr h) \<longleftrightarrow> (\<exists>old. loadHistory f = JArr old)"
  by (auto simp: updateHistory_def Let_def split: json.splits)

text \<open>
  Claim C9. After every history update that writes the file, in either script, the
  written array has at most 100 entries, it is the old array followed by the current
  run's entry with the oldest entries dropped from the front when that exceeds 100, and
  its last element is the current run's entry. The update writes whenever the file is
  missing, unreadable or holds an array. For the enhanced script this is stated of its
  history step and of the end of \<^verbatim>\<open>collectMetrics\<close> that contains it.
\<close>

theorem history_bounded_oldest_dropped:
  assumes "updateHistory f m = Inr h \<or> history_step f m = Inr h \<or>
           collectMetrics_history f m = Inr h"
  shows "length h \<le> 100 \<and> h \<noteq> [] \<and> last h = historicalEntry m \<and>
         (\<exists>old. loadHistory f = JArr old \<and>
                h = drop (length old + 1 - 100) (old @ [historicalEntry m]) \<and>
                (length old + 1 \<le> 100 \<longrightarrow> h = old @ [historicalEntry m]) \<and>
                (length old + 1 > 100 \<longrightarrow> length h = 100))"
proof -
  from assms have w: "updateHistory f m = Inr h"
    by (simp add: history_step_eq collectMetrics_history_throws)
  then obtain old where old: "loadHistory f = JArr old"
    using updateHistory_Inr_iff by blast
  with w have h: "h = drop (length old + 1 - 100) (old @ [historicalEntry m])"
    by (simp add: updateHistory_array)
  have "length h \<le> 100" using h by simp
  moreover have ne: "h \<noteq> []" using h by simp
  moreover have "last h = historicalEntry m"
    using h by simp
  moreover have "length old + 1 \<le> 100 \<longrightarrow> h = old @ [historicalEntry m]"
    using h by simp
  moreover have "length old + 1 > 100 \<longrightarrow> length h = 100"
    using h by simp
  ultimately show ?thesis using old h by blast
qed

theorem history_bounded_oldest_dropped_witness:
  "updateHistory (Parsed (JArr (replicate 100 JNull)))
       \<lparr>timestamp = ''t'', stats = \<lparr>repositories_count = 1, stars = 2, forks = 3,
          contributors_total = 4, totalCommits = 5, linesOfCode = 6\<rparr>\<rparr>
     = Inr (replicate 99 JNull @
         [historicalEntry \<lparr>timestamp = ''t'', stats = \<lparr>repositories_count = 1, stars = 2, forks = 3,
          contributors_total = 4, totalCommits = 5, linesOfCode = 6\<rparr>\<rparr>])
   \<and> length (replicate 99 JNull @
         [historicalEntry \<lparr>timestamp = ''t'', stats = \<lparr>repositories_count = 1, stars = 2, forks = 3,
          contributors_total = 4, totalCommits = 5, linesOfCode = 6\<rparr>\<rparr>]) \<le> 100"
proof -
  let ?m = "\<lparr>timestamp = ''t'', stats = \<lparr>repositories_count = 1, stars = 2, forks = 3,
          contributors_total = 4, totalCommits = 5, linesOfCode = 6\<rparr>\<rparr>"
  let ?h = "replicate 99 JNull @ [historicalEntry ?m]"
  have "replicate 100 JNull = JNull # replicate 99 JNull"
    by (simp add: numeral_eq_Suc)
  then have run: "updateHistory (Parsed (JArr (replicate 100 JNull))) ?m = Inr ?h"
    by (simp add: updateHistory_array loadHistory_def)
  from history_bounded_oldest_dropped [of "Parsed (JArr (replicate 100 JNull))" ?m ?h] run
  show ?thesis by simp
qed

text \<open>
  Claim C10. When the existing history file holds unparseable JSON, \<^verbatim>\<open>updateHistory\<close>
  raises no error: it starts from the empty history, and the array written is exactly the
  current run's entry; the history step of the enhanced script does the same when it is
  taken alone. The run of the enhanced script does not get there: building the co-author
  statistics reads the identifier \<^verbatim>\<open>usernameToDisplayName\<close>, which has no binding, so the
  end of \<^verbatim>\<open>collectMetrics\<close> throws a \<^verbatim>\<open>ReferenceError\<close> whatever the history file
  holds, the run does not complete and no history is written.
\<close>

theorem enhanced_run_throws_before_history:
  "updateHistory Unparseable m = Inr [historicalEntry m] \<and>
   history_step Unparseable m = Inr [historicalEntry m] \<and>
   collectMetrics_history Unparseable m = Inl ReferenceError \<and>
   collectMetrics_history f m = Inl ReferenceError"
  by (simp add: updateHistory_def history_step_def loadHistory_def
      collectMetrics_history_throws)

section \<open>Properties of the registry and of the deduplication merge\<close>

subsection \<open>The Map operations\<close>

lemma Map_get_Some_mem: "Map_get m k = Some v \<Longrightarrow> (k, v) \<in> set m"
  by (induction m) (auto split: if_splits)

lemma Map_get_None_iff: "Map_get m k = None \<longleftrightarrow> k \<notin> fst ` set m"
  by (induction m) (auto split: if_splits)

lemma Map_has_iff: "Map_has m k \<longleftrightarrow> k \<in> fst ` set m"
  by (simp add: Map_has_def Map_get_None_iff)

lemma Map_get_set: "Map_get (Map_set k v m) k' = (if k' = k then Some v else Map_get m k')"
  by (induction m) auto

lemma Map_get_delete:
  "Map_get (Map_delete k m) k' = (if k' = k then None else Map_get m k')"
  by (induction m) auto

lemma keys_Map_set:
  "map fst (Map_set k v m) = (if Map_has m k then map fst m else map fst m @ [k])"
  by (induction m) (auto simp: Map_has_def split: if_splits)

lemma keys_Map_delete: "map fst (Map_delete k m) = filter (\<lambda>x. x \<noteq> k) (map fst m)"
  by (induction m) auto

lemma distinct_Map_set: "distinct (map fst m) \<Longrightarrow> distinct (map fst (Map_set k v m))"
  by (simp add: keys_Map_set Map_has_iff)

lemma distinct_Map_delete: "distinct (map fst m) \<Longrightarrow> distinct (map fst (Map_delete k m))"
  by (simp add: keys_Map_delete)

lemma total_Map_set:
  "Map_get m k = Some old \<Longrightarrow>
   total_contributions (Map_set k v m) = total_contributions m - contributions old + contributions v"
  by (induction m) (auto simp: total_contributions_def split: if_splits)

lemma total_Map_set_new:
  "Map_get m k = None \<Longrightarrow>
   total_contributions (Map_set k v m) = total_contributions m + contributions v"
  by (induction m) (auto simp: total_contributions_def split: if_splits)

lemma total_Map_delete:
  "distinct (map fst m) \<Longrightarrow> Map_get m k = Some old \<Longrightarrow>
   total_contributions (Map_delete k m) = total_contributions m - contributions old"
proof (induction m)
  case Nil
  then show ?case by simp
next
  case (Cons kv m)
  obtain k' v' where kv: "kv = (k', v')" by (cases kv)
  show ?case
  proof (cases "k' = k")
    case True
    with Cons.prems kv have "k \<notin> fst ` set m" and "v' = old" by auto
    then have "Map_delete k m = m"
      by (induction m) auto
    with True kv \<open>v' = old\<close> show ?thesis
      by (simp add: total_contributions_def)
  next
    case False
    with Cons kv show ?thesis
      by (simp add: total_contributions_def)
  qed
qed

subsection \<open>The sign of a rounded difference\<close>

lemma pow2_powi: "pow2 e = 2 powi e"
  by (simp add: pow2_def power_int_def inverse_eq_divide power_one_over)

lemma pow2_pos: "0 < pow2 e"
  by (simp add: pow2_powi)

lemma exponent_le:
  assumes "0 < x"
  shows "pow2 (exponent x) \<le> x"
proof -
  obtain a b where q: "quotient_of x = (a, b)" by (cases "quotient_of x")
  then have b: "0 < b" by (rule quotient_of_denom_pos)
  from q have x: "x = of_int a / of_int b" by (rule quotient_of_div)
  with assms b have a: "0 < a" by (simp add: zero_less_divide_iff)
  let ?d = "bitlen a - bitlen b"
  show ?thesis
  proof (cases "pow2 ?d \<le> x")
    case True
    then show ?thesis by (simp add: exponent_def q Let_def)
  next
    case False
    have la: "(2::int) ^ nat (bitlen a - 1) \<le> a" and lb: "b < 2 ^ nat (bitlen b)"
      using bitlen_bounds [OF a] bitlen_bounds [OF b] by simp_all
    have la1: "1 \<le> bitlen a" using a by (simp add: bitlen_alt_def)
    have lb0: "0 \<le> bitlen b" by (rule bitlen_nonneg)
    have "pow2 (?d - 1) = 2 powi ((bitlen a - 1) - bitlen b)"
      by (simp add: pow2_powi algebra_simps)
    also have "\<dots> = 2 powi (bitlen a - 1) / 2 powi (bitlen b)"
      by (rule power_int_diff) simp
    also have "\<dots> = 2 ^ nat (bitlen a - 1) / 2 ^ nat (bitlen b)"
      using la1 lb0 by (simp add: power_int_def)
    also have "\<dots> \<le> of_int a / of_int b"
    proof (rule frac_le)
      show "(0::rat) \<le> of_int a" using a by simp
      have "(of_int (2 ^ nat (bitlen a - 1)) :: rat) \<le> of_int a"
        using la by (simp only: of_int_le_iff)
      then show "(2::rat) ^ nat (bitlen a - 1) \<le> of_int a" by simp
      show "(0::rat) < of_int b" using b by simp
      have "(of_int b :: rat) \<le> of_int (2 ^ nat (bitlen b))"
        using lb by (simp only: of_int_le_iff)
      then show "(of_int b :: rat) \<le> 2 ^ nat (bitlen b)" by simp
    qed
    finally have "pow2 (?d - 1) \<le> x" using x by simp
    with False show ?thesis by (simp add: exponent_def q Let_def)
  qed
qed

lemma round_half_even_bounds:
  "of_int (round_half_even q) \<le> q + 1 / 2 \<and> q - 1 / 2 \<le> of_int (round_half_even q)"
proof -
  define n where "n = \<lfloor>q\<rfloor>"
  have f: "of_int n \<le> q" "q < of_int n + 1" unfolding n_def by linarith+
  have "round_half_even q =
      (if q - of_int n < 1 / 2 then n
       else if 1 / 2 < q - of_int n then n + 1
       else if even n then n else n + 1)"
    by (simp add: round_half_even_def Let_def n_def)
  with f show ?thesis by auto
qed

text \<open>Rounding keeps the sign: a number that is not zero is not rounded to zero.\<close>

lemma to_double_sign: "to_double x \<le> 0 \<longleftrightarrow> x \<le> 0"
proof (cases "x = 0")
  case True
  then show ?thesis by (simp add: to_double_def)
next
  case False
  let ?u = "pow2 (exponent \<bar>x\<bar> - 52)"
  let ?n = "round_half_even (x / ?u)"
  have u: "0 < ?u" by (rule pow2_pos)
  have td: "to_double x = of_int ?n * ?u"
    using False by (simp add: to_double_def Let_def)
  have "pow2 (exponent \<bar>x\<bar>) \<le> \<bar>x\<bar>"
    using False by (intro exponent_le) simp
  moreover have "pow2 (exponent \<bar>x\<bar>) = 2 ^ 52 * ?u"
    by (simp add: pow2_powi power_int_diff)
  ultimately have big: "2 ^ 52 \<le> \<bar>x\<bar> / ?u"
    using u by (simp add: pos_le_divide_eq)
  note b = round_half_even_bounds [of "x / ?u"]
  have one: "(1::rat) \<le> 2 ^ 52" by simp
  show ?thesis
  proof (cases "0 < x")
    case True
    with big u have "2 ^ 52 \<le> x / ?u" by simp
    with b one have "(0::rat) < of_int ?n" by linarith
    with u have "0 < to_double x" unfolding td by simp
    with True show ?thesis by simp
  next
    case neg: False
    with False have x: "x < 0" by simp
    with big u have "x / ?u \<le> - (2 ^ 52)" by (simp add: abs_if)
    with b one have "of_int ?n < (0::rat)" by linarith
    with u have "to_double x < 0" unfolding td by (simp add: mult_neg_pos)
    with x show ?thesis by simp
  qed
qed

lemma dsub_sign: "dsub b a \<le> 0 \<longleftrightarrow> b \<le> a"
  by (simp add: dsub_def to_double_sign)

subsection \<open>Stable sort: the head is the first maximum\<close>

lemma sort_by_Cons: "sort_by cmp (x # xs) = insert_by cmp x (sort_by cmp xs)"
  by (simp add: sort_by_def)

lemma set_insert_by: "set (insert_by cmp a bs) = insert a (set bs)"
  by (induction bs) auto

lemma set_sort_by: "set (sort_by cmp xs) = set xs"
  by (induction xs) (simp_all add: sort_by_def set_insert_by)

lemma sort_by_Nil_iff: "sort_by cmp xs = [] \<longleftrightarrow> xs = []"
  using set_sort_by [of cmp xs] by (metis set_empty)

lemma hd_insert_by:
  "hd (insert_by cmp a bs) = (if bs = [] \<or> cmp a (hd bs) \<le> 0 then a else hd bs)"
  by (cases bs) auto

lemma hd_sort_by_first_max:
  fixes key :: "'a \<Rightarrow> rat"
  assumes cmp: "\<And>a b. cmp a b \<le> 0 \<longleftrightarrow> key b \<le> key a"
  shows "xs \<noteq> [] \<Longrightarrow>
   \<exists>ys zs. xs = ys @ hd (sort_by cmp xs) # zs \<and>
     (\<forall>y \<in> set ys. key y < key (hd (sort_by cmp xs))) \<and>
     (\<forall>z \<in> set zs. key z \<le> key (hd (sort_by cmp xs)))"
proof (induction xs)
  case Nil
  then show ?case by simp
next
  case (Cons x xs)
  let ?cmp = cmp
  show ?case
  proof (cases "xs = []")
    case True
    then show ?thesis
      by (intro exI [of _ "[]"]) (simp add: sort_by_def)
  next
    case False
    let ?p = "hd (sort_by ?cmp xs)"
    from Cons.IH [OF False] obtain ys zs where
      split: "xs = ys @ ?p # zs" and
      lo: "\<forall>y \<in> set ys. key y < key ?p" and
      hi: "\<forall>z \<in> set zs. key z \<le> key ?p"
      by blast
    have ne: "sort_by ?cmp xs \<noteq> []" using False by (simp add: sort_by_Nil_iff)
    show ?thesis
    proof (cases "key ?p \<le> key x")
      case True
      then have hd: "hd (sort_by ?cmp (x # xs)) = x"
        using ne by (simp add: sort_by_Cons hd_insert_by cmp)
      have "\<forall>z \<in> set xs. key z \<le> key x"
      proof
        fix z assume "z \<in> set xs"
        then have "z \<in> set ys \<or> z = ?p \<or> z \<in> set zs"
          by (subst (asm) split) auto
        with lo hi True show "key z \<le> key x" by fastforce
      qed
      with hd show ?thesis by (intro exI [of _ "[]"] exI [of _ xs]) simp
    next
      case False
      then have hd: "hd (sort_by ?cmp (x # xs)) = ?p"
        using ne by (simp add: sort_by_Cons hd_insert_by cmp)
      have "x # xs = (x # ys) @ ?p # zs" using split by simp
      moreover have "\<forall>y \<in> set (x # ys). key y < key ?p" using lo False by auto
      ultimately show ?thesis using hi unfolding hd by blast
    qed
  qed
qed

lemma loginScores_total:
  "\<forall>l \<in> set ls. Map_has reg l \<Longrightarrow>
   loginScores reg ls = Inr (map (\<lambda>l. (l, score_of reg l)) ls)"
  by (induction ls) (auto simp: Map_has_def score_of_def)

lemma choosePrimaryLogin_first_max:
  assumes ne: "valid \<noteq> []" and has: "\<forall>l \<in> set valid. Map_has reg l"
  shows "\<exists>p ys zs. choosePrimaryLogin reg valid = Inr p \<and> valid = ys @ p # zs \<and>
           (\<forall>y \<in> set ys. score_of reg y < score_of reg p) \<and>
           (\<forall>z \<in> set zs. score_of reg z \<le> score_of reg p)"
proof -
  let ?f = "\<lambda>l. (l, score_of reg l)"
  let ?scores = "map ?f valid"
  let ?sorted = "sort_by (\<lambda>a b. dsub (snd b) (snd a)) ?scores"
  have scores: "loginScores reg valid = Inr ?scores"
    using has by (rule loginScores_total)
  have sne: "?scores \<noteq> []" using ne by simp
  then have "?sorted \<noteq> []" by (simp add: sort_by_Nil_iff)
  then obtain best rest where sorted: "?sorted = best # rest"
    by (cases ?sorted) auto
  then have best: "hd ?sorted = best" by simp
  have chosen: "choosePrimaryLogin reg valid = Inr (fst best)"
    by (simp add: choosePrimaryLogin_def scores sorted)
  have cmp: "\<And>a b :: string \<times> rat. dsub (snd b) (snd a) \<le> 0 \<longleftrightarrow> snd b \<le> snd a"
    by (rule dsub_sign)
  from hd_sort_by_first_max [of "\<lambda>a b. dsub (snd b) (snd a)" snd, OF cmp sne] best
  obtain ys' zs' where
    split: "?scores = ys' @ best # zs'" and
    lo: "\<forall>y \<in> set ys'. snd y < snd best" and
    hi: "\<forall>z \<in> set zs'. snd z \<le> snd best"
    by auto
  from split obtain ys p zs where
    valid: "valid = ys @ p # zs" and ys': "ys' = map ?f ys" and
    b: "best = ?f p" and zs': "zs' = map ?f zs"
    by (auto simp: map_eq_append_conv map_eq_Cons_conv)
  have "\<forall>y \<in> set ys. score_of reg y < score_of reg p"
    using lo ys' b by simp
  moreover have "\<forall>z \<in> set zs. score_of reg z \<le> score_of reg p"
    using hi zs' b by simp
  ultimately show ?thesis using chosen valid b by auto
qed

lemma avatar_condition:
  "(truthy (avatar_url data) \<and>
      (case avatar_url data of None \<Rightarrow> False | Some a \<Rightarrow> str_includes a ''github''))
   \<longleftrightarrow> (\<exists>a. avatar_url data = Some a \<and> a \<noteq> [] \<and> str_includes a ''github'')"
  by (auto simp: truthy_def split: option.splits)

lemma accumulate_weights:
  "(let score = s0;
        score = dadd score x;
        score = (if c1 then dadd score w1 else score);
        score = (if c2 then dadd score w2 else score);
        score = (if c3 then dadd score w3 else score);
        score = (if c4 then dadd score w4 else score);
        score = (if c5 then dadd score w5 else score)
    in score)
   = foldl dadd s0
       (x # map snd (filter fst [(c1, w1), (c2, w2), (c3, w3), (c4, w4), (c5, w5)]))"
  by (simp add: Let_def)

lemma score_of_weights:
  assumes d: "Map_get reg l = Some data"
  shows "score_of reg l =
     foldl dadd 0
       (dmul (to_double (of_int (contributions data))) (to_double (1 / 10)) #
        map snd (filter fst
          [(truthy (github_login data), 100),
           (truthy (github_login data) \<and>
              Some (toLowerCase l) = map_option toLowerCase (github_login data), 50),
           (\<exists>a. avatar_url data = Some a \<and> a \<noteq> [] \<and> str_includes a ''github'', 30),
           (\<not> str_includes l ''contributor-'', 20),
           (\<not> str_includes l '' '', 5)]))"
proof -
  have "score_of reg l = loginScore l data"
    by (simp add: score_of_def d)
  also have "\<dots> =
     foldl dadd 0
       (dmul (to_double (of_int (contributions data))) (to_double (1 / 10)) #
        map snd (filter fst
          [(truthy (github_login data), 100),
           (truthy (github_login data) \<and>
              Some (toLowerCase l) = map_option toLowerCase (github_login data), 50),
           (truthy (avatar_url data) \<and>
              (case avatar_url data of None \<Rightarrow> False | Some a \<Rightarrow> str_includes a ''github''), 30),
           (\<not> str_includes l ''contributor-'', 20),
           (\<not> str_includes l '' '', 5)]))"
    unfolding loginScore_def by (rule accumulate_weights)
  finally show ?thesis
    by (simp only: avatar_condition)
qed

subsection \<open>Absorbing the other members into the primary\<close>

lemma contributions_absorbRecord:
  "contributions (absorbRecord ty l data as pd) = contributions pd + contributions data"
  by (simp add: absorbRecord_def Let_def)

lemma aliases_absorbRecord:
  "aliases (absorbRecord ty l data as pd) =
     Some (as @ [\<lparr>alias_login = l, alias_type = ty,
                  alias_contributions = contributions data,
                  alias_repositories = repositories data\<rparr>])"
  by (simp add: absorbRecord_def Let_def)

lemma absorb_correct:
  assumes "distinct (map fst reg)" and "Map_get reg p = Some pd" and "aliases pd = Some as"
    and "distinct ls" and "\<forall>l \<in> set ls. Map_has reg l"
  shows "\<exists>reg'. absorb ty p ls (reg, mg) = Inr (reg', mg \<union> (set ls - {p})) \<and>
           total_contributions reg' = total_contributions reg \<and>
           distinct (map fst reg') \<and>
           map fst reg' = filter (\<lambda>k. k \<notin> set ls - {p}) (map fst reg) \<and>
           contributions_of reg' p =
             contributions pd + sum_list (map (contributions_of reg) (filter (\<lambda>l. l \<noteq> p) ls)) \<and>
           aliases_of reg' p = as @ map (alias_for ty reg) (filter (\<lambda>l. l \<noteq> p) ls) \<and>
           (\<forall>k. k \<noteq> p \<and> k \<notin> set ls \<longrightarrow> Map_get reg' k = Map_get reg k)"
  using assms
proof (induction ls arbitrary: reg mg pd as)
  case Nil
  then show ?case
    by (simp add: contributions_of_def aliases_of_def)
next
  case (Cons l ls)
  show ?case
  proof (cases "l = p")
    case True
    from Cons.prems have "distinct ls" "\<forall>l \<in> set ls. Map_has reg l" "p \<notin> set ls"
      using True by auto
    from Cons.IH [OF Cons.prems(1-3) this(1,2), of mg] obtain reg' where
      r: "absorb ty p ls (reg, mg) = Inr (reg', mg \<union> (set ls - {p}))"
         "total_contributions reg' = total_contributions reg"
         "distinct (map fst reg')"
         "map fst reg' = filter (\<lambda>k. k \<notin> set ls - {p}) (map fst reg)"
         "contributions_of reg' p =
             contributions pd + sum_list (map (contributions_of reg) (filter (\<lambda>l. l \<noteq> p) ls))"
         "aliases_of reg' p = as @ map (alias_for ty reg) (filter (\<lambda>l. l \<noteq> p) ls)"
         "\<forall>k. k \<noteq> p \<and> k \<notin> set ls \<longrightarrow> Map_get reg' k = Map_get reg k"
      by blast
    have s: "set (l # ls) - {p} = set ls - {p}" using True by auto
    show ?thesis
      unfolding s using r True by (intro exI [of _ reg']) auto
  next
    case False
    from Cons.prems obtain d where d: "Map_get reg l = Some d"
      by (auto simp: Map_has_def)
    let ?pd' = "absorbRecord ty l d as pd"
    let ?reg1 = "Map_delete l (Map_set p ?pd' reg)"
    have step: "absorb ty p (l # ls) (reg, mg) = absorb ty p ls (?reg1, insert l mg)"
      using False d Cons.prems(2,3) by simp
    have dist1: "distinct (map fst ?reg1)"
      using Cons.prems(1) by (simp add: distinct_Map_set distinct_Map_delete)
    have getp: "Map_get ?reg1 p = Some ?pd'"
      using False by (simp add: Map_get_delete Map_get_set)
    have al: "aliases ?pd' = Some (as @ [alias_for ty reg l])"
      using d by (simp add: aliases_absorbRecord alias_for_def contributions_of_def
          repositories_of_def)
    have lnot: "l \<notin> set ls" and dls: "distinct ls" using Cons.prems(4) by auto
    have other: "\<And>k. k \<noteq> p \<Longrightarrow> k \<noteq> l \<Longrightarrow> Map_get ?reg1 k = Map_get reg k"
      by (simp add: Map_get_delete Map_get_set)
    have has1: "\<forall>l' \<in> set ls. Map_has ?reg1 l'"
    proof
      fix l' assume l': "l' \<in> set ls"
      then have "l' \<noteq> l" using lnot by auto
      moreover have "Map_has reg l'" using Cons.prems(5) l' by simp
      ultimately show "Map_has ?reg1 l'"
        by (simp add: Map_has_def Map_get_delete Map_get_set)
    qed
    have tot1: "total_contributions ?reg1 = total_contributions reg"
    proof -
      have "Map_get (Map_set p ?pd' reg) l = Some d"
        using False d by (simp add: Map_get_set)
      then have "total_contributions ?reg1
          = total_contributions (Map_set p ?pd' reg) - contributions d"
        using Cons.prems(1) by (simp add: total_Map_delete distinct_Map_set)
      also have "total_contributions (Map_set p ?pd' reg)
          = total_contributions reg - contributions pd + contributions ?pd'"
        using Cons.prems(2) by (rule total_Map_set)
      finally show ?thesis by (simp add: contributions_absorbRecord)
    qed
    have keys1: "map fst ?reg1 = filter (\<lambda>k. k \<noteq> l) (map fst reg)"
      using Cons.prems(2) by (simp add: keys_Map_delete keys_Map_set Map_has_def)
    from Cons.IH [OF dist1 getp al dls has1, of "insert l mg"] obtain reg' where
      r: "absorb ty p ls (?reg1, insert l mg) = Inr (reg', insert l mg \<union> (set ls - {p}))"
         "total_contributions reg' = total_contributions ?reg1"
         "distinct (map fst reg')"
         "map fst reg' = filter (\<lambda>k. k \<notin> set ls - {p}) (map fst ?reg1)"
         "contributions_of reg' p =
             contributions ?pd' + sum_list (map (contributions_of ?reg1) (filter (\<lambda>l. l \<noteq> p) ls))"
         "aliases_of reg' p =
             (as @ [alias_for ty reg l]) @ map (alias_for ty ?reg1) (filter (\<lambda>l. l \<noteq> p) ls)"
         "\<forall>k. k \<noteq> p \<and> k \<notin> set ls \<longrightarrow> Map_get reg' k = Map_get ?reg1 k"
      by blast
    have same: "\<And>l'. l' \<in> set (filter (\<lambda>l. l \<noteq> p) ls) \<Longrightarrow>
        contributions_of ?reg1 l' = contributions_of reg l' \<and>
        alias_for ty ?reg1 l' = alias_for ty reg l'"
    proof -
      fix l' assume "l' \<in> set (filter (\<lambda>l. l \<noteq> p) ls)"
      then have "l' \<noteq> p" "l' \<noteq> l" using lnot by auto
      then have "Map_get ?reg1 l' = Map_get reg l'" by (rule other)
      then show "contributions_of ?reg1 l' = contributions_of reg l' \<and>
        alias_for ty ?reg1 l' = alias_for ty reg l'"
        by (simp add: contributions_of_def alias_for_def repositories_of_def)
    qed
    have sums: "map (contributions_of ?reg1) (filter (\<lambda>l. l \<noteq> p) ls)
        = map (contributions_of reg) (filter (\<lambda>l. l \<noteq> p) ls)"
      using same by (intro map_cong) auto
    have als: "map (alias_for ty ?reg1) (filter (\<lambda>l. l \<noteq> p) ls)
        = map (alias_for ty reg) (filter (\<lambda>l. l \<noteq> p) ls)"
      using same by (intro map_cong) auto
    have mg: "insert l mg \<union> (set ls - {p}) = mg \<union> (set (l # ls) - {p})"
      using False by auto
    have keys: "map fst reg' = filter (\<lambda>k. k \<notin> set (l # ls) - {p}) (map fst reg)"
      unfolding r(4) keys1 using False by (auto simp: filter_filter intro!: filter_cong)
    have c: "contributions_of reg' p = contributions pd +
        sum_list (map (contributions_of reg) (filter (\<lambda>l. l \<noteq> p) (l # ls)))"
      unfolding r(5) sums using False d
      by (simp add: contributions_absorbRecord contributions_of_def)
    have a: "aliases_of reg' p = as @ map (alias_for ty reg) (filter (\<lambda>l. l \<noteq> p) (l # ls))"
      unfolding r(6) als using False by simp
    have o: "\<forall>k. k \<noteq> p \<and> k \<notin> set (l # ls) \<longrightarrow> Map_get reg' k = Map_get reg k"
      using r(7) other by auto
    show ?thesis
      unfolding step mg [symmetric]
      using r(1) r(2) tot1 r(3) keys c a o by (intro exI [of _ reg']) simp
  qed
qed

text \<open>
  Claim C6. Every member of a match-set is scored by adding up, in double-precision
  arithmetic and in this order, 0.1 times its contributions, 100 for a verified handle, 50
  when the login equals the verified handle case-insensitively, 30 when the avatar
  reference contains \<^verbatim>\<open>github\<close>, 20 when the login does not contain
  \<^verbatim>\<open>contributor-\<close> and 5 when the login contains no space; the chosen primary is the
  member with the highest computed score, and among members with equal computed scores
  the first member of the match-set.
\<close>

theorem primary_is_first_highest_score:
  assumes "valid \<noteq> []" and "\<forall>l \<in> set valid. Map_has reg l"
  shows "(\<exists>p ys zs. choosePrimaryLogin reg valid = Inr p \<and> valid = ys @ p # zs \<and>
            (\<forall>y \<in> set ys. score_of reg y < score_of reg p) \<and>
            (\<forall>z \<in> set zs. score_of reg z \<le> score_of reg p)) \<and>
         (\<forall>l \<in> set valid. \<exists>data. Map_get reg l = Some data \<and>
            score_of reg l =
              foldl dadd 0
                (dmul (to_double (of_int (contributions data))) (to_double (1 / 10)) #
                 map snd (filter fst
                   [(truthy (github_login data), 100),
                    (truthy (github_login data) \<and>
                       Some (toLowerCase l) = map_option toLowerCase (github_login data), 50),
                    (\<exists>a. avatar_url data = Some a \<and> a \<noteq> [] \<and> str_includes a ''github'', 30),
                    (\<not> str_includes l ''contributor-'', 20),
                    (\<not> str_includes l '' '', 5)])))"
proof
  show "\<exists>p ys zs. choosePrimaryLogin reg valid = Inr p \<and> valid = ys @ p # zs \<and>
            (\<forall>y \<in> set ys. score_of reg y < score_of reg p) \<and>
            (\<forall>z \<in> set zs. score_of reg z \<le> score_of reg p)"
    using assms by (rule choosePrimaryLogin_first_max)
next
  show "\<forall>l \<in> set valid. \<exists>data. Map_get reg l = Some data \<and>
            score_of reg l =
              foldl dadd 0
                (dmul (to_double (of_int (contributions data))) (to_double (1 / 10)) #
                 map snd (filter fst
                   [(truthy (github_login data), 100),
                    (truthy (github_login data) \<and>
                       Some (toLowerCase l) = map_option toLowerCase (github_login data), 50),
                    (\<exists>a. avatar_url data = Some a \<and> a \<noteq> [] \<and> str_includes a ''github'', 30),
                    (\<not> str_includes l ''contributor-'', 20),
                    (\<not> str_includes l '' '', 5)]))"
  proof
    fix l assume "l \<in> set valid"
    with assms(2) obtain data where d: "Map_get reg l = Some data"
      by (auto simp: Map_has_def)
    from score_of_weights [OF d] d
    show "\<exists>data. Map_get reg l = Some data \<and>
            score_of reg l =
              foldl dadd 0
                (dmul (to_double (of_int (contributions data))) (to_double (1 / 10)) #
                 map snd (filter fst
                   [(truthy (github_login data), 100),
                    (truthy (github_login data) \<and>
                       Some (toLowerCase l) = map_option toLowerCase (github_login data), 50),
                    (\<exists>a. avatar_url data = Some a \<and> a \<noteq> [] \<and> str_includes a ''github'', 30),
                    (\<not> str_includes l ''contributor-'', 20),
                    (\<not> str_includes l '' '', 5)]))"
      by blast
  qed
qed

text \<open>
  Two members with equal computed scores: the first member of the match-set is chosen,
  although the registry holds the other one first.
\<close>

theorem primary_is_first_highest_score_witness:
  "choosePrimaryLogin ex_tie_registry [''alicia'', ''alice''] = Inr ''alicia'' \<and>
   score_of ex_tie_registry ''alicia'' = score_of ex_tie_registry ''alice''"
proof -
  have h1: "[''alicia'', ''alice''] \<noteq> []" by simp
  have h2: "\<forall>l \<in> set [''alicia'', ''alice'']. Map_has ex_tie_registry l"
    by (simp add: Map_has_def ex_tie_registry_def)
  have eq: "score_of ex_tie_registry ''alicia'' = score_of ex_tie_registry ''alice''"
    by code_simp
  from primary_is_first_highest_score [OF h1 h2] obtain p ys zs where
    p: "choosePrimaryLogin ex_tie_registry [''alicia'', ''alice''] = Inr p" and
    split: "[''alicia'', ''alice''] = ys @ p # zs" and
    lo: "\<forall>y \<in> set ys. score_of ex_tie_registry y < score_of ex_tie_registry p"
    by blast
  from split have "(ys = [] \<and> p = ''alicia'' \<and> zs = [''alice'']) \<or>
      (ys = [''alicia''] \<and> p = ''alice'' \<and> zs = [])"
    by (auto simp: Cons_eq_append_conv)
  with lo eq have "p = ''alicia''" by auto
  with p eq show ?thesis by simp
qed

text \<open>
  With the scores taken as exact numbers the claim fails. The co-author record
  \<^verbatim>\<open>samlee\<close> (0.1 + 100 + 30 + 20 + 5) and the listed contributor \<^verbatim>\<open>sam-lee\<close>
  (100.1 + 30 + 20 + 5) form a match-set by name similarity and have the same exact score
  1551/10, but the script computes 155.1 for the first and 155.10000000000002 for the
  second, and the second member becomes the primary.
\<close>

theorem equal_exact_scores_later_member_chosen:
  "map dup_logins (findDuplicates ex_sam_registry) = [[''samlee'', ''sam-lee'']] \<and>
   exactScore ''samlee'' ex_samlee = 1551 / 10 \<and>
   exactScore ''sam-lee'' ex_sam_lee = 1551 / 10 \<and>
   loginScore ''samlee'' ex_samlee = 5457096110977843 / 35184372088832 \<and>
   loginScore ''sam-lee'' ex_sam_lee = 1364274027744461 / 8796093022208 \<and>
   loginScore ''samlee'' ex_samlee < loginScore ''sam-lee'' ex_sam_lee \<and>
   choosePrimaryLogin ex_sam_registry [''samlee'', ''sam-lee''] = Inr ''sam-lee''"
  by code_simp

lemma validLogins_has: "\<forall>l \<in> set (validLogins reg mg ls). Map_has reg l"
  by (simp add: validLogins_def)

lemma init_aliases:
  assumes "Map_get reg p = Some pd"
  defines "reg0 \<equiv> (if aliases pd = None then Map_set p (pd\<lparr>aliases := Some []\<rparr>) reg else reg)"
  shows "\<exists>pd0. Map_get reg0 p = Some pd0 \<and> aliases pd0 = Some (aliases_of reg p) \<and>
           contributions pd0 = contributions pd"
    and "map fst reg0 = map fst reg"
    and "total_contributions reg0 = total_contributions reg"
    and "contributions_of reg0 = contributions_of reg"
    and "repositories_of reg0 = repositories_of reg"
    and "Map_has reg0 = Map_has reg"
proof -
  show "\<exists>pd0. Map_get reg0 p = Some pd0 \<and> aliases pd0 = Some (aliases_of reg p) \<and>
           contributions pd0 = contributions pd"
    using assms(1) by (auto simp: reg0_def Map_get_set aliases_of_def)
  show "map fst reg0 = map fst reg"
    using assms(1) by (simp add: reg0_def keys_Map_set Map_has_def)
  show "total_contributions reg0 = total_contributions reg"
    using assms(1) by (simp add: reg0_def total_Map_set)
  show "contributions_of reg0 = contributions_of reg"
    using assms(1) by (auto simp: reg0_def contributions_of_def Map_get_set fun_eq_iff)
  show "repositories_of reg0 = repositories_of reg"
    using assms(1) by (auto simp: reg0_def repositories_of_def Map_get_set fun_eq_iff)
  show "Map_has reg0 = Map_has reg"
    using assms(1) by (auto simp: reg0_def Map_has_def Map_get_set fun_eq_iff)
qed

text \<open>
  Claim C1. Merging a match-set preserves contributions. For a registry with unique keys
  and a match-set without repeated logins the merge returns, the registry-wide sum of
  contributions is unchanged, and unless nothing was merged the chosen primary ends with
  its own contributions plus those of every absorbed record; each absorbed record is
  appended exactly once to the primary's aliases with its pre-merge contribution count
  and is removed from the registry.
\<close>

theorem merge_preserves_contributions:
  assumes dist: "distinct (map fst reg)" and dl: "distinct (dup_logins d)"
  shows "\<exists>reg' merged'. mergeDuplicate d (reg, merged) = Inr (reg', merged') \<and>
          total_contributions reg' = total_contributions reg \<and>
          distinct (map fst reg') \<and>
          ((reg' = reg \<and> merged' = merged) \<or>
           (\<exists>p absorbed.
               choosePrimaryLogin reg (validLogins reg merged (dup_logins d)) = Inr p \<and>
               p \<in> set (validLogins reg merged (dup_logins d)) \<and>
               absorbed = filter (\<lambda>l. l \<noteq> p) (validLogins reg merged (dup_logins d)) \<and>
               distinct absorbed \<and>
               contributions_of reg' p =
                 contributions_of reg p + sum_list (map (contributions_of reg) absorbed) \<and>
               aliases_of reg' p =
                 aliases_of reg p @ map (alias_for (dup_type d) reg) absorbed \<and>
               map fst reg' = filter (\<lambda>k. k \<notin> set absorbed) (map fst reg) \<and>
               merged' = merged \<union> set absorbed))"
proof -
  let ?valid = "validLogins reg merged (dup_logins d)"
  show ?thesis
  proof (cases "list_all (\<lambda>l. l \<in> merged \<or> \<not> Map_has reg l) (dup_logins d) \<or> length ?valid \<le> 1")
    case True
    then have "mergeDuplicate d (reg, merged) = Inr (reg, merged)"
      by (auto simp: mergeDuplicate_def Let_def)
    with dist show ?thesis by simp
  next
    case False
    then have ne: "?valid \<noteq> []" by auto
    from choosePrimaryLogin_first_max [OF ne validLogins_has] obtain p ys zs where
      p: "choosePrimaryLogin reg ?valid = Inr p" and split: "?valid = ys @ p # zs"
      by blast
    then have pin: "p \<in> set ?valid" by simp
    then obtain pd where pd: "Map_get reg p = Some pd"
      using validLogins_has [of reg merged "dup_logins d"] by (auto simp: Map_has_def)
    let ?reg0 = "(if aliases pd = None then Map_set p (pd\<lparr>aliases := Some []\<rparr>) reg else reg)"
    have run: "mergeDuplicate d (reg, merged) = absorb (dup_type d) p ?valid (?reg0, merged)"
      using False p pd by (simp add: mergeDuplicate_def Let_def)
    note i = init_aliases [OF pd]
    from i(1) obtain pd0 where pd0: "Map_get ?reg0 p = Some pd0"
      "aliases pd0 = Some (aliases_of reg p)" "contributions pd0 = contributions pd"
      by blast
    have d0: "distinct (map fst ?reg0)" using dist i(2) by simp
    have dv: "distinct ?valid" using dl by (simp add: validLogins_def)
    have h0: "\<forall>l \<in> set ?valid. Map_has ?reg0 l"
      using validLogins_has [of reg merged "dup_logins d"] i(6) by simp
    let ?absorbed = "filter (\<lambda>l. l \<noteq> p) ?valid"
    have sa: "set ?valid - {p} = set ?absorbed" by auto
    have af: "alias_for (dup_type d) ?reg0 = alias_for (dup_type d) reg"
      using i(4,5) by (simp add: alias_for_def fun_eq_iff)
    from absorb_correct [OF d0 pd0(1,2) dv h0, of "dup_type d" merged] obtain reg' where
      r: "absorb (dup_type d) p ?valid (?reg0, merged) = Inr (reg', merged \<union> (set ?valid - {p}))"
         "total_contributions reg' = total_contributions ?reg0"
         "distinct (map fst reg')"
         "map fst reg' = filter (\<lambda>k. k \<notin> set ?valid - {p}) (map fst ?reg0)"
         "contributions_of reg' p =
             contributions pd0 + sum_list (map (contributions_of ?reg0) ?absorbed)"
         "aliases_of reg' p = aliases_of reg p @ map (alias_for (dup_type d) ?reg0) ?absorbed"
      by blast
    have c: "contributions_of reg' p =
        contributions_of reg p + sum_list (map (contributions_of reg) ?absorbed)"
      using r(5) pd0(3) pd i(4) by (simp add: contributions_of_def)
    have a: "aliases_of reg' p = aliases_of reg p @ map (alias_for (dup_type d) reg) ?absorbed"
      using r(6) af by simp
    have k: "map fst reg' = filter (\<lambda>k. k \<notin> set ?absorbed) (map fst reg)"
      using r(4) i(2) sa by simp
    have t: "total_contributions reg' = total_contributions reg"
      using r(2) i(3) by simp
    have m: "mergeDuplicate d (reg, merged) = Inr (reg', merged \<union> set ?absorbed)"
      using run r(1) sa by simp
    have da: "distinct ?absorbed" using dv by simp
    show ?thesis
      using m t r(3) p pin da c a k by blast
  qed
qed

theorem merge_preserves_contributions_witness:
  "(\<exists>reg'. mergeDuplicate
       \<lparr>dup_type = Email, dup_key = ''a@x.com'', dup_logins = [''alice'', ''alice-1'']\<rparr>
       (ex_registry, {}) = Inr (reg', {''alice-1''}) \<and>
     total_contributions reg' = 5 \<and> contributions_of reg' ''alice'' = 5 \<and>
     map fst reg' = [''alice''] \<and>
     aliases_of reg' ''alice'' =
       [\<lparr>alias_login = ''alice-1'', alias_type = Email, alias_contributions = 2,
         alias_repositories = [''r2'']\<rparr>])"
proof -
  let ?d = "\<lparr>dup_type = Email, dup_key = ''a@x.com'', dup_logins = [''alice'', ''alice-1'']\<rparr>"
  have h1: "distinct (map fst ex_registry)" by (simp add: ex_registry_def)
  have h2: "distinct (dup_logins ?d)" by simp
  have v: "validLogins ex_registry {} (dup_logins ?d) = [''alice'', ''alice-1'']"
    by (simp add: validLogins_def Map_has_def ex_registry_def)
  have run: "mergeDuplicate ?d (ex_registry, {}) \<noteq> Inr (ex_registry, {})"
    by code_simp
  have pick: "choosePrimaryLogin ex_registry [''alice'', ''alice-1''] = Inr ''alice''"
    by code_simp
  have c: "contributions_of ex_registry ''alice'' = 3"
    "contributions_of ex_registry ''alice-1'' = 2"
    "repositories_of ex_registry ''alice-1'' = [''r2'']"
    "aliases_of ex_registry ''alice'' = []"
    "total_contributions ex_registry = 5"
    by (simp_all add: contributions_of_def repositories_of_def aliases_of_def
        total_contributions_def ex_registry_def ex_alice_def ex_alice1_def)
  have k: "map fst ex_registry = [''alice'', ''alice-1'']"
    by (simp add: ex_registry_def)
  from merge_preserves_contributions [OF h1 h2, of "{}"] run obtain reg' merged' p absorbed
    where r: "mergeDuplicate ?d (ex_registry, {}) = Inr (reg', merged')"
      "total_contributions reg' = total_contributions ex_registry"
      "choosePrimaryLogin ex_registry (validLogins ex_registry {} (dup_logins ?d)) = Inr p"
      "absorbed = filter (\<lambda>l. l \<noteq> p) (validLogins ex_registry {} (dup_logins ?d))"
      "contributions_of reg' p =
         contributions_of ex_registry p + sum_list (map (contributions_of ex_registry) absorbed)"
      "aliases_of reg' p =
         aliases_of ex_registry p @ map (alias_for (dup_type ?d) ex_registry) absorbed"
      "map fst reg' = filter (\<lambda>k. k \<notin> set absorbed) (map fst ex_registry)"
      "merged' = {} \<union> set absorbed"
    by auto
  from r(3) have p: "p = ''alice''" unfolding v pick by simp
  with r(4) have a: "absorbed = [''alice-1'']" unfolding v by simp
  show ?thesis
    using r(1,2,5,6,7,8) unfolding p a
    by (intro exI [of _ reg']) (simp add: c k alias_for_def)
qed

section \<open>Properties of the username functions\<close>

lemma first_of_None_iff: "first_of rs = None \<longleftrightarrow> (\<forall>r \<in> set rs. r = None)"
  by (induction rs rule: first_of.induct) auto

lemma first_of_Some_head: "first_of (Some x # rs) = Some x"
  by simp

lemma getUsernameFromEmail_None_iff:
  "getUsernameFromEmail em nm = None \<longleftrightarrow> \<not> truthy em \<and> \<not> truthy nm"
proof (cases "\<not> truthy em \<and> \<not> truthy nm")
  case True
  then show ?thesis by (simp add: getUsernameFromEmail_def)
next
  case False
  then have "or_empty em \<noteq> [] \<or> or_empty nm \<noteq> []"
    by (auto simp: truthy_def or_empty_def split: option.splits)
  then have "rule_cleaned_name (or_empty nm) \<noteq> None \<or> rule_placeholder (or_empty em) \<noteq> None"
    by (auto simp: rule_cleaned_name_def rule_placeholder_def Let_def)
  with False show ?thesis
    by (auto simp: getUsernameFromEmail_def Let_def first_of_None_iff)
qed

lemma getUsernameFromEmail_mention_first:
  assumes "str_includes name ''@''" and "rule_mention name = Some h"
  shows "getUsernameFromEmail em (Some name) = Some h"
proof -
  from assms(1) have "name \<noteq> []" by auto
  then have "truthy (Some name)" by (simp add: truthy_def)
  with assms show ?thesis
    by (simp add: getUsernameFromEmail_def Let_def or_empty_def)
qed

section \<open>Properties of the co-author upsert\<close>

lemma Map_set_new: "\<not> Map_has m k \<Longrightarrow> Map_set k v m = m @ [(k, v)]"
  unfolding Map_has_def by (induction m) (auto split: if_splits)

lemma nextFree_free: "\<not> Map_has reg (nextFree reg u c)"
proof (induction reg u c rule: nextFree.induct)
  case (1 reg username counter)
  show ?case
  proof (cases "Map_has reg (numbered username counter)")
    case True
    with 1 show ?thesis by (subst nextFree.simps) simp
  next
    case False
    then show ?thesis by (subst nextFree.simps) simp
  qed
qed

lemma finalUsername_free: "\<not> Map_has reg (finalUsername reg u)"
  by (simp add: finalUsername_def nextFree_free)

lemma findByEmail_None_iff:
  "findByEmail reg e = None \<longleftrightarrow> (\<forall>kd \<in> set reg. \<not> sameEmail (snd kd) e)"
  by (induction reg) (auto split: if_splits)

lemma findByEmail_Some:
  "findByEmail reg e = Some (k, data) \<Longrightarrow> (k, data) \<in> set reg \<and> sameEmail data e"
  by (induction reg) (auto split: if_splits)

lemma Map_set_keys_present: "(k, v) \<in> set m \<Longrightarrow> map fst (Map_set k v' m) = map fst m"
  by (induction m) auto

text \<open>
  Claim C3 (as amended). A co-author candidate is merged into an existing record exactly
  when some record's stored e-mail equals the candidate's e-mail case-insensitively:
  the first such record gets one more contribution and the repository, and no key is
  added. Otherwise a new record is appended under a key that was not in the registry,
  the cleaned handle numbered until it is free; this is also what happens when the
  cleaned handle equals an existing record's canonical login.
\<close>

theorem coauthor_upsert_by_email_only:
  "((\<exists>kd \<in> set reg. sameEmail (snd kd) (toLowerCase (ca_email ca))) \<longrightarrow>
      (\<exists>k data. findByEmail reg (toLowerCase (ca_email ca)) = Some (k, data) \<and>
         (k, data) \<in> set reg \<and> sameEmail data (toLowerCase (ca_email ca)) \<and>
         upsertCoAuthor repo reg ca =
           Map_set k (data\<lparr>contributions := contributions data + 1,
                           repositories := Set_add repo (repositories data)\<rparr>) reg \<and>
         map fst (upsertCoAuthor repo reg ca) = map fst reg)) \<and>
   ((\<forall>kd \<in> set reg. \<not> sameEmail (snd kd) (toLowerCase (ca_email ca))) \<longrightarrow>
      (\<exists>key. \<not> Map_has reg key \<and>
         key = finalUsername reg (baseUsername reg (ca_name ca) (ca_email ca)) \<and>
         upsertCoAuthor repo reg ca =
           reg @ [(key, newCoAuthor key (ca_name ca) (ca_email ca) repo)]))"
proof (intro conjI impI)
  assume "\<exists>kd \<in> set reg. sameEmail (snd kd) (toLowerCase (ca_email ca))"
  then have "findByEmail reg (toLowerCase (ca_email ca)) \<noteq> None"
    by (simp add: findByEmail_None_iff)
  then obtain k data where f: "findByEmail reg (toLowerCase (ca_email ca)) = Some (k, data)"
    by auto
  note m = findByEmail_Some [OF f]
  have u: "upsertCoAuthor repo reg ca =
      Map_set k (data\<lparr>contributions := contributions data + 1,
                      repositories := Set_add repo (repositories data)\<rparr>) reg"
    by (simp add: upsertCoAuthor_def Let_def f)
  have "map fst (upsertCoAuthor repo reg ca) = map fst reg"
    unfolding u using m [THEN conjunct1] by (rule Map_set_keys_present)
  with f m u show "\<exists>k data. findByEmail reg (toLowerCase (ca_email ca)) = Some (k, data) \<and>
         (k, data) \<in> set reg \<and> sameEmail data (toLowerCase (ca_email ca)) \<and>
         upsertCoAuthor repo reg ca =
           Map_set k (data\<lparr>contributions := contributions data + 1,
                           repositories := Set_add repo (repositories data)\<rparr>) reg \<and>
         map fst (upsertCoAuthor repo reg ca) = map fst reg"
    by blast
next
  assume "\<forall>kd \<in> set reg. \<not> sameEmail (snd kd) (toLowerCase (ca_email ca))"
  then have f: "findByEmail reg (toLowerCase (ca_email ca)) = None"
    by (simp add: findByEmail_None_iff)
  let ?key = "finalUsername reg (baseUsername reg (ca_name ca) (ca_email ca))"
  have free: "\<not> Map_has reg ?key" by (rule finalUsername_free)
  have "upsertCoAuthor repo reg ca = Map_set ?key (newCoAuthor ?key (ca_name ca) (ca_email ca) repo) reg"
    by (simp add: upsertCoAuthor_def Let_def f)
  with free show "\<exists>key. \<not> Map_has reg key \<and>
         key = finalUsername reg (baseUsername reg (ca_name ca) (ca_email ca)) \<and>
         upsertCoAuthor repo reg ca =
           reg @ [(key, newCoAuthor key (ca_name ca) (ca_email ca) repo)]"
    by (simp add: Map_set_new)
qed

theorem coauthor_upsert_by_email_only_witness:
  "upsertCoAuthor ''r3'' ex_registry \<lparr>ca_name = ''Al'', ca_email = ''A@X.com'', ca_source = Step1\<rparr>
     = [(''alice'', ex_alice\<lparr>contributions := 4, repositories := [''r1'', ''r3'']\<rparr>),
        (''alice-1'', ex_alice1)]"
proof -
  let ?ca = "\<lparr>ca_name = ''Al'', ca_email = ''A@X.com'', ca_source = Step1\<rparr>"
  have lower: "toLowerCase (ca_email ?ca) = ''a@x.com''" by code_simp
  have same: "sameEmail ex_alice ''a@x.com''" by code_simp
  have found: "findByEmail ex_registry ''a@x.com'' = Some (''alice'', ex_alice)"
    by (simp add: ex_registry_def same)
  have ex: "\<exists>kd \<in> set ex_registry. sameEmail (snd kd) (toLowerCase (ca_email ?ca))"
    unfolding lower using same by (simp add: ex_registry_def)
  from coauthor_upsert_by_email_only [of ex_registry ?ca "''r3''", THEN conjunct1, rule_format, OF ex]
  obtain k data where
    f: "findByEmail ex_registry (toLowerCase (ca_email ?ca)) = Some (k, data)" and
    u: "upsertCoAuthor ''r3'' ex_registry ?ca =
       Map_set k (data\<lparr>contributions := contributions data + 1,
                       repositories := Set_add ''r3'' (repositories data)\<rparr>) ex_registry"
    by (elim exE conjE)
  from f have kd: "k = ''alice''" "data = ex_alice"
    unfolding lower found by simp_all
  have "Map_set ''alice'' (ex_alice\<lparr>contributions := contributions ex_alice + 1,
                       repositories := Set_add ''r3'' (repositories ex_alice)\<rparr>) ex_registry
      = [(''alice'', ex_alice\<lparr>contributions := 4, repositories := [''r1'', ''r3'']\<rparr>),
        (''alice-1'', ex_alice1)]"
    by (simp add: ex_registry_def ex_alice_def Set_add_def)
  with u show ?thesis unfolding kd by simp
qed

theorem coauthor_handle_match_not_merged:
  "upsertCoAuthor ''r2'' [(''alice'', ex_direct)]
     \<lparr>ca_name = ''Alice'', ca_email = ''a@x.com'', ca_source = Step1\<rparr>
   = [(''alice'', ex_direct),
      (''alice-1'', newCoAuthor ''alice-1'' ''Alice'' ''a@x.com'' ''r2'')]"
  unfolding upsertCoAuthor_def Let_def by code_simp

text \<open>
  Claim C4. \<^verbatim>\<open>extractUsername\<close> tests the numeric-id no-reply e-mail pattern before it
  looks for an \<^verbatim>\<open>@handle\<close> mention in the name, so for such an e-mail the e-mail's handle
  is returned and the mention is ignored. \<^verbatim>\<open>getUsernameFromEmail\<close>, the later revision of
  the same function, returns the mentioned handle on the same input.
\<close>

theorem extractUsername_noreply_before_mention:
  "extractUsername ''123+bob@users.noreply.github.com'' ''@alice'' = Some ''bob'' \<and>
   getUsernameFromEmail (Some ''123+bob@users.noreply.github.com'') (Some ''@alice'')
     = Some ''alice''"
  by code_simp

text \<open>
  Claim C7. \<^verbatim>\<open>extractUsername\<close> returns \<^verbatim>\<open>null\<close> for a non-empty e-mail address whose
  local part has at most two characters when the name is empty;
  \<^verbatim>\<open>getUsernameFromEmail\<close> returns its placeholder on the same input.
\<close>

theorem extractUsername_null_on_nonempty:
  "extractUsername ''ab@x.com'' [] = None \<and>
   getUsernameFromEmail (Some ''ab@x.com'') (Some []) = Some ''contributor-274482732''"
  by code_simp

text \<open>
  Claim C5. The fallback key of a co-author record is \<^verbatim>\<open>contributor-\<close> followed by the
  registry size plus one: the same (e-mail, name) pair gets different fallback handles
  in registries of different sizes, whereas the placeholder of \<^verbatim>\<open>getUsernameFromEmail\<close>
  is computed from the e-mail alone.
\<close>

theorem fallback_handle_depends_on_registry:
  "map fst (upsertCoAuthor ''r'' []
       \<lparr>ca_name = [], ca_email = ''a@x.com'', ca_source = Step4\<rparr>) = [''contributor-1''] \<and>
   map fst (upsertCoAuthor ''r'' [(''alice'', ex_direct)]
       \<lparr>ca_name = [], ca_email = ''a@x.com'', ca_source = Step4\<rparr>)
     = [''alice'', ''contributor-2''] \<and>
   getUsernameFromEmail (Some ''a@x.com'') (Some []) = Some (placeholder ''a@x.com'')"
  unfolding upsertCoAuthor_def Let_def by code_simp

section \<open>Properties of the co-author extractor\<close>

subsection \<open>Substrings\<close>

lemma startsWith_Nil [simp]: "startsWith s [] = True"
  by (cases s) simp_all

lemma startsWith_append: "startsWith a w \<Longrightarrow> startsWith (a @ b) w"
  by (induction a w rule: startsWith.induct) auto

lemma startsWith_self_append: "startsWith (w @ r) w"
  by (induction w) auto

lemma str_includes_Nil [simp]: "str_includes s []"
  by (induction s) auto

lemma str_includes_Cons: "str_includes s w \<Longrightarrow> str_includes (c # s) w"
  by (cases w) auto

lemma str_includes_prepend: "str_includes s w \<Longrightarrow> str_includes (p @ s) w"
  by (induction p) (auto intro: str_includes_Cons simp del: str_includes.simps)

lemma str_includes_middle: "str_includes (p @ w @ r) w"
proof (rule str_includes_prepend)
  show "str_includes (w @ r) w"
  proof (cases w)
    case Nil
    then show ?thesis by simp
  next
    case (Cons x w')
    have "startsWith ((x # w') @ r) (x # w')" by (rule startsWith_self_append)
    with Cons show ?thesis by simp
  qed
qed

lemma str_includes_append: "str_includes a w \<Longrightarrow> str_includes (a @ b) w"
proof (induction a)
  case Nil
  then show ?case by simp
next
  case (Cons x xs)
  from Cons.prems have "startsWith (x # xs) w \<or> str_includes xs w" by simp
  then show ?case
  proof
    assume "startsWith (x # xs) w"
    then have "startsWith ((x # xs) @ b) w" by (rule startsWith_append)
    then show ?thesis by simp
  next
    assume "str_includes xs w"
    then have "str_includes (xs @ b) w" by (rule Cons.IH)
    then show ?thesis by (simp add: str_includes_Cons del: str_includes.simps)
  qed
qed

lemma startsWith_replace_crlf:
  "startsWith (replace_crlf [LF] s) w \<Longrightarrow> LF \<notin> set w \<Longrightarrow> startsWith s w"
proof (induction "[LF]" s arbitrary: w rule: replace_crlf.induct)
  case 1
  then show ?case by simp
next
  case (2 c)
  then show ?case by simp
next
  case (3 c d cs)
  show ?case
  proof (cases w)
    case Nil
    then show ?thesis by simp
  next
    case (Cons x w')
    show ?thesis
    proof (cases "c = CR \<and> d = LF")
      case True
      with "3.prems" Cons show ?thesis by auto
    next
      case False
      with "3.prems" Cons have "x = c" "startsWith (replace_crlf [LF] (d # cs)) w'" "LF \<notin> set w'"
        by auto
      with "3.hyps"(2) [OF False, of w'] Cons show ?thesis by simp
    qed
  qed
qed

lemma str_includes_replace_crlf:
  "str_includes (replace_crlf [LF] s) w \<Longrightarrow> LF \<notin> set w \<Longrightarrow> w \<noteq> [] \<Longrightarrow> str_includes s w"
proof (induction "[LF]" s rule: replace_crlf.induct)
  case 1
  then show ?case by simp
next
  case (2 c)
  then show ?case by simp
next
  case (3 c d cs)
  show ?case
  proof (cases "c = CR \<and> d = LF")
    case True
    from "3.prems" obtain x w' where w: "w = x # w'" "x \<noteq> LF" by (cases w) auto
    with "3.prems" True have "str_includes (replace_crlf [LF] cs) w"
      by auto
    with "3.hyps"(1) [OF True] "3.prems" have "str_includes cs w" by simp
    then show ?thesis by (intro str_includes_Cons)
  next
    case False
    with "3.prems" have "startsWith (c # replace_crlf [LF] (d # cs)) w \<or>
        str_includes (replace_crlf [LF] (d # cs)) w"
      by simp
    then show ?thesis
    proof
      assume "startsWith (c # replace_crlf [LF] (d # cs)) w"
      then have "startsWith (replace_crlf [LF] (c # d # cs)) w" using False by auto
      then have "startsWith (c # d # cs) w" using "3.prems"(2) by (rule startsWith_replace_crlf)
      then show ?thesis by simp
    next
      assume "str_includes (replace_crlf [LF] (d # cs)) w"
      with "3.hyps"(2) [OF False] "3.prems" have "str_includes (d # cs) w" by simp
      then show ?thesis by (rule str_includes_Cons)
    qed
  qed
qed

lemma split_on_nonempty: "split_on sep s \<noteq> []"
  by (induction s) (auto split: list.splits)

lemma split_on_hd_prefix: "\<exists>r. s = hd (split_on sep s) @ r"
proof (induction s)
  case Nil
  then show ?case by simp
next
  case (Cons c cs)
  then obtain r where r: "cs = hd (split_on sep cs) @ r" by blast
  show ?case
  proof (cases "c = sep")
    case True
    then show ?thesis by simp
  next
    case False
    obtain x xs where x: "split_on sep cs = x # xs"
      using split_on_nonempty [of sep cs] by (cases "split_on sep cs") auto
    with r False show ?thesis by auto
  qed
qed

lemma str_includes_split_on:
  "l \<in> set (split_on sep s) \<Longrightarrow> str_includes l w \<Longrightarrow> str_includes s w"
proof (induction s arbitrary: l)
  case Nil
  then show ?case by simp
next
  case (Cons c cs)
  show ?case
  proof (cases "c = sep")
    case True
    with Cons.prems have "l = [] \<or> l \<in> set (split_on sep cs)" by simp
    then show ?thesis
    proof
      assume "l = []"
      with Cons.prems(2) have "w = []" by simp
      then show ?thesis by simp
    next
      assume "l \<in> set (split_on sep cs)"
      with Cons.IH Cons.prems(2) have "str_includes cs w" by blast
      then show ?thesis by (rule str_includes_Cons)
    qed
  next
    case False
    obtain x xs where x: "split_on sep cs = x # xs"
      using split_on_nonempty [of sep cs] by (cases "split_on sep cs") auto
    with False Cons.prems have "l = c # x \<or> l \<in> set xs" by simp
    then show ?thesis
    proof
      assume l: "l = c # x"
      from split_on_hd_prefix [of cs sep] x obtain r where r: "cs = x @ r" by auto
      from Cons.prems(2) l have "startsWith (c # x) w \<or> str_includes x w" by simp
      then show ?thesis
      proof
        assume "startsWith (c # x) w"
        then have "startsWith ((c # x) @ r) w" by (rule startsWith_append)
        then show ?thesis using r by simp
      next
        assume "str_includes x w"
        moreover have "x \<in> set (split_on sep cs)" using x by simp
        ultimately have "str_includes cs w" using Cons.IH by blast
        then show ?thesis by (rule str_includes_Cons)
      qed
    next
      assume "l \<in> set xs"
      then have "l \<in> set (split_on sep cs)" using x by simp
      with Cons.IH Cons.prems(2) have "str_includes cs w" by blast
      then show ?thesis by (rule str_includes_Cons)
    qed
  qed
qed

lemma str_includes_trim: "str_includes (trim l) w \<Longrightarrow> str_includes l w"
proof -
  have "\<exists>p r. l = p @ trim l @ r"
  proof -
    let ?a = "dropWhile isSpace l"
    have 1: "l = takeWhile isSpace l @ ?a" by simp
    have 2: "rev ?a = takeWhile isSpace (rev ?a) @ dropWhile isSpace (rev ?a)" by simp
    then have "?a = trim l @ rev (takeWhile isSpace (rev ?a))"
      unfolding trim_def by (metis rev_append rev_rev_ident)
    with 1 show ?thesis by metis
  qed
  then obtain p r where l: "l = p @ trim l @ r" by blast
  assume "str_includes (trim l) w"
  then have "str_includes (trim l @ r) w" by (rule str_includes_append)
  then have "str_includes (p @ trim l @ r) w" by (rule str_includes_prepend)
  then show ?thesis using l by simp
qed

subsection \<open>The matcher on the patterns of the line scan\<close>

lemma run_lit_i:
  "run_atoms (lit_i m @ as) prev (m @ r) opens caps =
     run_atoms as (if m = [] then prev else Some (last m)) r opens caps"
  by (induction m arbitrary: prev) (simp_all add: lit_i_def)

lemma match_here_Ch_fail: "\<not> p c \<Longrightarrow> match_here (Ch p # as) prev (c # cs) i = None"
  by (simp add: match_here_def)

lemma search_skip:
  "\<forall>c \<in> set pre. \<not> p c \<Longrightarrow>
   search_from (Ch p # as) prev (pre @ t) i =
     search_from (Ch p # as) (if pre = [] then prev else Some (last pre)) t (i + length pre)"
  by (induction pre arbitrary: prev i) (simp_all add: match_here_Ch_fail)

lemma run_emailBracket:
  assumes "em \<noteq> []" and "CHR ''>'' \<notin> set em"
  shows "run_atoms emailBracket prev (CHR ''<'' # em @ CHR ''>'' # rest) [] [] = Some (rest, [(1, em)])"
proof -
  have tw: "takeWhile (\<lambda>c. c \<noteq> CHR ''>'') (em @ CHR ''>'' # rest) = em"
    using assms(2) by (induction em) auto
  have up: "rev [Suc 0..<Suc (length em)] = length em # rev [Suc 0..<length em]"
    using assms(1) by (cases em) simp_all
  have len: "Suc 0 \<le> length em" using assms(1) by (cases em) simp_all
  show ?thesis
    by (simp add: emailBracket_def tw up len)
qed

lemma matched_group_emailBracket:
  assumes "em \<noteq> []" and "CHR ''>'' \<notin> set em" and "CHR ''<'' \<notin> set pre"
  shows "matched_group (pre @ CHR ''<'' # em @ CHR ''>'' # rest) emailBracket 1 = Some em"
proof -
  let ?re = "emailBracket"
  have re: "?re = Ch (\<lambda>c. c = CHR ''<'') # tl ?re"
    by (simp add: emailBracket_def)
  have skip: "search_from ?re None (pre @ CHR ''<'' # em @ CHR ''>'' # rest) 0 =
      search_from ?re (if pre = [] then None else Some (last pre))
        (CHR ''<'' # em @ CHR ''>'' # rest) (0 + length pre)"
    using assms(3) by (subst re, subst (2) re) (rule search_skip, auto)
  have here: "match_here ?re prev (CHR ''<'' # em @ CHR ''>'' # rest) i =
      Some \<lparr>m_index = i, m_text = CHR ''<'' # em @ ''>'', m_groups = [(1, em)]\<rparr>" for prev i
    unfolding match_here_def run_emailBracket [OF assms(1,2)] by simp
  have "search_from ?re prev (CHR ''<'' # em @ CHR ''>'' # rest) i =
      Some \<lparr>m_index = i, m_text = CHR ''<'' # em @ ''>'', m_groups = [(1, em)]\<rparr>" for prev i
    by (simp add: here)
  then have "str_match (pre @ CHR ''<'' # em @ CHR ''>'' # rest) ?re =
      Some \<lparr>m_index = 0 + length pre, m_text = CHR ''<'' # em @ ''>'', m_groups = [(1, em)]\<rparr>"
    unfolding str_match_def skip by simp
  then show ?thesis
    using assms(1) by (simp add: matched_group_def group_def)
qed

lemma regex_test_marker: "regex_test coAuthoredBy_i (''Co-Authored-By:'' @ r)"
proof -
  have "run_atoms (lit_i ''Co-Authored-By:'' @ []) None (''Co-Authored-By:'' @ r) [] [] =
      run_atoms [] (Some (last ''Co-Authored-By:'')) r [] []"
    by (subst run_lit_i) simp
  then have "match_here coAuthoredBy_i None (''Co-Authored-By:'' @ r) 0 \<noteq> None"
    by (simp add: match_here_def coAuthoredBy_i_def)
  then show ?thesis
    by (auto simp: regex_test_def str_match_def split: option.splits)
qed

lemma bracketed_trailer:
  assumes "em \<noteq> []" and "CHR ''>'' \<notin> set em" and "CHR ''<'' \<notin> set nm"
  shows "\<exists>n. bracketed Step1 nameBeforeBracket (trailer nm em) =
           [\<lparr>ca_name = n, ca_email = trim em, ca_source = Step1\<rparr>]"
proof -
  have shape: "trailer nm em = (''Co-Authored-By: '' @ nm @ '' '') @ CHR ''<'' # em @ CHR ''>'' # []"
    by (simp add: trailer_def)
  have "CHR ''<'' \<notin> set (''Co-Authored-By: '' @ nm @ '' '')"
    using assms(3) by simp
  from matched_group_emailBracket [OF assms(1,2) this, of "[]"]
  have "matched_group (trailer nm em) emailBracket 1 = Some em"
    unfolding shape .
  then show ?thesis by (simp add: bracketed_def)
qed

lemma step1_finds_trailer:
  assumes line: "trailer nm em \<in> set (lines_of message)"
    and wf: "em \<noteq> []" "CHR ''>'' \<notin> set em" "CHR ''<'' \<notin> set nm"
  shows "\<exists>c \<in> set (step1 message). ca_email c = trim em"
proof -
  from line obtain l where l: "l \<in> set (split_on LF (replace_crlf [LF] message))"
    and t: "trim l = trailer nm em"
    by (auto simp: lines_of_def)
  have inc_t: "str_includes (trailer nm em) ''Co-Authored-By:''"
    using str_includes_middle [of "[]" "''Co-Authored-By:''"] by (simp add: trailer_def)
  then have "str_includes l ''Co-Authored-By:''"
    using t str_includes_trim by metis
  with l have "str_includes (replace_crlf [LF] message) ''Co-Authored-By:''"
    by (rule str_includes_split_on)
  then have inc: "str_includes message ''Co-Authored-By:''"
    by (rule str_includes_replace_crlf) (simp_all add: LF_def)
  have test: "regex_test coAuthoredBy_i (trailer nm em)"
    using regex_test_marker [of "'' '' @ nm @ '' <'' @ em @ ''>''"] by (simp add: trailer_def)
  from bracketed_trailer [OF wf] obtain n where
    b: "bracketed Step1 nameBeforeBracket (trailer nm em) =
           [\<lparr>ca_name = n, ca_email = trim em, ca_source = Step1\<rparr>]"
    by blast
  let ?f = "\<lambda>l. let line = trim l in
              if regex_test coAuthoredBy_i line
              then bracketed Step1 nameBeforeBracket line else []"
  have "\<lparr>ca_name = n, ca_email = trim em, ca_source = Step1\<rparr> \<in> set (?f l)"
    using t test b by (simp add: Let_def)
  with l have "\<lparr>ca_name = n, ca_email = trim em, ca_source = Step1\<rparr>
      \<in> set (concat (map ?f (split_on LF (replace_crlf [LF] message))))"
    by auto
  then have "\<lparr>ca_name = n, ca_email = trim em, ca_source = Step1\<rparr> \<in> set (step1 message)"
    using inc by (simp add: step1_def)
  then show ?thesis by force
qed

subsection \<open>The final filter\<close>

lemma uniqueCoauthors_props:
  "set (map lemail (uniqueCoauthors seen cs)) =
     lemail ` {c \<in> set cs. ca_email c \<noteq> []} - set seen \<and>
   distinct (map lemail (uniqueCoauthors seen cs)) \<and>
   set (uniqueCoauthors seen cs) \<subseteq> {c \<in> set cs. ca_email c \<noteq> []}"
proof (induction cs arbitrary: seen)
  case Nil
  then show ?case by simp
next
  case (Cons a cs)
  show ?case
  proof (cases "ca_email a = [] \<or> toLowerCase (ca_email a) \<in> set seen")
    case True
    with Cons [of seen] show ?thesis by (auto simp: lemail_def)
  next
    case False
    with Cons [of "toLowerCase (ca_email a) # seen"] show ?thesis
      by (auto simp: lemail_def)
  qed
qed

lemma allCandidates_Nil: "allCandidates [] = []"
  by code_simp

lemma extractCoAuthors_props:
  "set (map lemail (extractCoAuthors message)) =
     lemail ` {c \<in> set (allCandidates message). ca_email c \<noteq> []} \<and>
   distinct (map lemail (extractCoAuthors message)) \<and>
   set (extractCoAuthors message) \<subseteq> {c \<in> set (allCandidates message). ca_email c \<noteq> []}"
proof (cases "message = []")
  case True
  then show ?thesis by (simp add: extractCoAuthors_def allCandidates_Nil)
next
  case False
  then show ?thesis
    using uniqueCoauthors_props [of "[]" "allCandidates message"]
    by (simp add: extractCoAuthors_def)
qed

text \<open>
  Claim C2 (as amended). The extractor returns one candidate per distinct lower-cased
  non-empty e-mail found by any of its scans, so the returned sequence never contains
  two candidates whose e-mails are equal case-insensitively. The e-mail of every
  well-formed \<^verbatim>\<open>Co-Authored-By: Name <email>\<close> trailer that stands on a line of its own
  is among the returned e-mails (case-insensitively). The number of candidates is the
  number of trailers when the trailer e-mails are pairwise different and the scans find
  no other e-mail; it is smaller when trailers repeat an e-mail and larger when the
  message holds other e-mail-shaped text.
\<close>

theorem extractCoAuthors_one_per_distinct_email:
  assumes tr: "\<forall>t \<in> set trailers. trailer (fst t) (snd t) \<in> set (lines_of message) \<and>
                 CHR ''<'' \<notin> set (fst t) \<and> CHR ''>'' \<notin> set (snd t) \<and> trim (snd t) \<noteq> []"
  shows "(\<forall>t \<in> set trailers.
            toLowerCase (trim (snd t)) \<in> set (map lemail (extractCoAuthors message))) \<and>
         distinct (map lemail (extractCoAuthors message)) \<and>
         length (extractCoAuthors message) =
           card (lemail ` {c \<in> set (allCandidates message). ca_email c \<noteq> []}) \<and>
         (distinct (map (\<lambda>t. toLowerCase (trim (snd t))) trailers) \<and>
          (\<forall>c \<in> set (allCandidates message). ca_email c \<noteq> [] \<longrightarrow>
              lemail c \<in> set (map (\<lambda>t. toLowerCase (trim (snd t))) trailers))
          \<longrightarrow> length (extractCoAuthors message) = length trailers)"
proof -
  let ?key = "\<lambda>t. toLowerCase (trim (snd t))"
  let ?found = "lemail ` {c \<in> set (allCandidates message). ca_email c \<noteq> []}"
  note p = extractCoAuthors_props [of message]
  have emails: "set (map lemail (extractCoAuthors message)) = ?found" using p by blast
  have dist: "distinct (map lemail (extractCoAuthors message))" using p by blast
  have all: "\<forall>t \<in> set trailers. ?key t \<in> set (map lemail (extractCoAuthors message))"
  proof
    fix t assume t: "t \<in> set trailers"
    with tr have line: "trailer (fst t) (snd t) \<in> set (lines_of message)"
      and wf: "CHR ''<'' \<notin> set (fst t)" "CHR ''>'' \<notin> set (snd t)" "trim (snd t) \<noteq> []"
      by auto
    from wf(3) have ne: "snd t \<noteq> []" by (auto simp: trim_def)
    from step1_finds_trailer [OF line ne wf(2) wf(1)] obtain c where
      c: "c \<in> set (step1 message)" "ca_email c = trim (snd t)"
      by blast
    then have "c \<in> {c \<in> set (allCandidates message). ca_email c \<noteq> []}"
      using wf(3) by (simp add: allCandidates_def)
    then have "lemail c \<in> ?found" by (rule imageI)
    then show "?key t \<in> set (map lemail (extractCoAuthors message))"
      unfolding emails using c(2) by (simp add: lemail_def)
  qed
  have len: "length (extractCoAuthors message) = card ?found"
    using distinct_card [OF dist] emails by simp
  have exact: "length (extractCoAuthors message) = length trailers"
    if d: "distinct (map ?key trailers)"
      and only: "\<forall>c \<in> set (allCandidates message). ca_email c \<noteq> [] \<longrightarrow>
              lemail c \<in> set (map ?key trailers)"
  proof -
    have "?found \<subseteq> set (map ?key trailers)" using only by auto
    moreover have "set (map ?key trailers) \<subseteq> ?found" using all emails by auto
    ultimately have "?found = set (map ?key trailers)" by blast
    then have "card ?found = length trailers"
      using distinct_card [OF d] by simp
    with len show ?thesis by simp
  qed
  show ?thesis using all dist len exact by blast
qed

lemma ex_lines: "lines_of ex_message = [''Co-Authored-By: Al <a@b.co>'', ''Co-Authored-By: Bo <c@d.io>'']"
  unfolding lines_of_def by code_simp

lemma ex_trims: "trim ''a@b.co'' = ''a@b.co''" "trim ''c@d.io'' = ''c@d.io''"
  by code_simp+

lemma ex_lower: "toLowerCase ''a@b.co'' = ''a@b.co''" "toLowerCase ''c@d.io'' = ''c@d.io''"
  by code_simp+

theorem extractCoAuthors_one_per_distinct_email_witness:
  "''a@b.co'' \<in> set (map lemail (extractCoAuthors ex_message)) \<and>
   ''c@d.io'' \<in> set (map lemail (extractCoAuthors ex_message))"
proof -
  let ?trailers = "[(''Al'', ''a@b.co''), (''Bo'', ''c@d.io'')]"
  have h: "\<forall>t \<in> set ?trailers. trailer (fst t) (snd t) \<in> set (lines_of ex_message) \<and>
                 CHR ''<'' \<notin> set (fst t) \<and> CHR ''>'' \<notin> set (snd t) \<and> trim (snd t) \<noteq> []"
    by (simp add: ex_lines ex_trims trailer_def)
  from extractCoAuthors_one_per_distinct_email [OF h]
  have "\<forall>t \<in> set ?trailers.
            toLowerCase (trim (snd t)) \<in> set (map lemail (extractCoAuthors ex_message))"
    by blast
  then show ?thesis by (simp add: ex_trims ex_lower)
qed

theorem extractCoAuthors_count_not_trailer_count:
  "extractCoAuthors (''Co-Authored-By: Al <a@b.co>'' @ [LF] @ ''Co-Authored-By: Al <a@b.co>'')
     = [\<lparr>ca_name = ''Al'', ca_email = ''a@b.co'', ca_source = Step1\<rparr>] \<and>
   extractCoAuthors (''Thanks z@q.io'' @ [LF] @ ''Co-Authored-By: Al <a@b.co>'')
     = [\<lparr>ca_name = ''Al'', ca_email = ''a@b.co'', ca_source = Step1\<rparr>,
        \<lparr>ca_name = [], ca_email = ''z@q.io'', ca_source = Step4\<rparr>]"
  by code_simp

section \<open>Properties of the registry population\<close>

lemma set_Set_add: "set (Set_add x xs) = insert x (set xs)"
  by (auto simp: Set_add_def)

lemma upsertLogin_agg:
  "Map_has (upsertLogin l av h n repo reg) k = (Map_has reg k \<or> k = toLowerCase l)"
  "contributions_of (upsertLogin l av h n repo reg) k =
     contributions_of reg k + (if k = toLowerCase l then n else 0)"
  "set (repositories_of (upsertLogin l av h n repo reg) k) =
     set (repositories_of reg k) \<union> (if k = toLowerCase l then {repo} else {})"
  by (auto simp: upsertLogin_def Let_def Map_has_def contributions_of_def repositories_of_def
      Map_get_set set_Set_add split: option.splits)

lemma eff_refl: "eff reg reg k False 0 {}"
  by (simp add: eff_def)

lemma eff_trans:
  "eff reg reg' k t1 n1 R1 \<Longrightarrow> eff reg' reg'' k t2 n2 R2 \<Longrightarrow>
   eff reg reg'' k (t1 \<or> t2) (n1 + n2) (R1 \<union> R2)"
  by (auto simp: eff_def)

lemma eff_upsertDirect:
  "eff reg (upsertDirect repo reg c) k (key_of (user_login c) = Some k) (contributor_delta k c)
     (if key_of (user_login c) = Some k then {repo} else {})"
  by (auto simp: eff_def upsertDirect_def upsertLogin_agg key_of_def contributor_delta_def)

lemma eff_upsertAuthor:
  "truthy (commit_message commit) \<Longrightarrow>
   eff reg (upsertAuthor repo reg (commit_author commit)) k (author_key commit = Some k)
     (commit_delta k commit) (if author_key commit = Some k then {repo} else {})"
  by (auto simp: eff_def upsertAuthor_def upsertLogin_agg key_of_def commit_delta_def
      author_key_def split: option.splits)

lemma processCommit_no_coauthors:
  "extractCoAuthors (or_empty (commit_message commit)) = [] \<Longrightarrow>
   processCommit repo st commit =
     (if truthy (commit_message commit)
      then (upsertAuthor repo (fst st) (commit_author commit), snd st) else st)"
  by (simp add: processCommit_def Let_def)

lemma eff_processCommit:
  assumes "extractCoAuthors (or_empty (commit_message commit)) = []"
  shows "eff (fst st) (fst (processCommit repo st commit)) k (author_key commit = Some k)
     (commit_delta k commit) (if author_key commit = Some k then {repo} else {}) \<and>
     snd (processCommit repo st commit) = snd st"
proof (cases "truthy (commit_message commit)")
  case True
  with eff_upsertAuthor [OF True] show ?thesis
    by (simp add: processCommit_no_coauthors [OF assms])
next
  case False
  then have "author_key commit = None" by (simp add: author_key_def)
  with False show ?thesis
    by (simp add: processCommit_no_coauthors [OF assms] eff_def commit_delta_def)
qed

lemma eff_contributors:
  "eff reg (foldl (upsertDirect repo) reg cs) k
     (list_ex (\<lambda>c. key_of (user_login c) = Some k) cs)
     (sum_list (map (contributor_delta k) cs))
     (if list_ex (\<lambda>c. key_of (user_login c) = Some k) cs then {repo} else {})"
proof (induction cs arbitrary: reg)
  case Nil
  then show ?case by (simp add: eff_refl)
next
  case (Cons c cs)
  from eff_trans [OF eff_upsertDirect [of reg repo c k] Cons [of "upsertDirect repo reg c"]]
  show ?case by (auto simp: eff_def)
qed

lemma eff_commits:
  assumes "list_all (\<lambda>commit. extractCoAuthors (or_empty (commit_message commit)) = []) cms"
  shows "eff (fst st) (fst (foldl (processCommit repo) st cms)) k
     (list_ex (\<lambda>commit. author_key commit = Some k) cms)
     (sum_list (map (commit_delta k) cms))
     (if list_ex (\<lambda>commit. author_key commit = Some k) cms then {repo} else {}) \<and>
     snd (foldl (processCommit repo) st cms) = snd st"
  using assms
proof (induction cms arbitrary: st)
  case Nil
  then show ?case by (simp add: eff_refl)
next
  case (Cons cm cms)
  then have nc: "extractCoAuthors (or_empty (commit_message cm)) = []"
    and rest: "list_all (\<lambda>commit. extractCoAuthors (or_empty (commit_message commit)) = []) cms"
    by simp_all
  note one = eff_processCommit [OF nc, of st repo k]
  note more = Cons.IH [OF rest, of "processCommit repo st cm"]
  from eff_trans [OF one [THEN conjunct1] more [THEN conjunct1]] one more
  show ?case by (auto simp: eff_def)
qed

lemma eff_processRepo:
  assumes "no_coauthors r"
  shows "eff (fst st) (fst (processRepo st r)) k (repo_touches k r) (repo_delta k r)
     (if repo_touches k r then {repo_name r} else {}) \<and>
     snd (processRepo st r) = snd st"
proof -
  let ?mid = "(foldl (upsertDirect (repo_name r)) (fst st) (repo_contributors r), snd st)"
  note a = eff_contributors [of "fst st" "repo_name r" "repo_contributors r" k]
  note b = eff_commits [OF assms [unfolded no_coauthors_def], of ?mid "repo_name r" k]
  from eff_trans [OF _ b [THEN conjunct1]] a
  have "eff (fst st) (fst (foldl (processCommit (repo_name r)) ?mid (repo_commits r))) k
     (list_ex (\<lambda>c. key_of (user_login c) = Some k) (repo_contributors r) \<or>
      list_ex (\<lambda>commit. author_key commit = Some k) (repo_commits r))
     (sum_list (map (contributor_delta k) (repo_contributors r)) +
      sum_list (map (commit_delta k) (repo_commits r)))
     ((if list_ex (\<lambda>c. key_of (user_login c) = Some k) (repo_contributors r)
       then {repo_name r} else {}) \<union>
      (if list_ex (\<lambda>commit. author_key commit = Some k) (repo_commits r)
       then {repo_name r} else {}))"
    by simp
  then have "eff (fst st) (fst (processRepo st r)) k (repo_touches k r) (repo_delta k r)
     (if repo_touches k r then {repo_name r} else {})"
    by (auto simp: processRepo_def repo_touches_def repo_delta_def eff_def)
  moreover have "snd (processRepo st r) = snd st"
    using b by (simp add: processRepo_def)
  ultimately show ?thesis ..
qed

lemma eff_repos:
  assumes "\<forall>r \<in> set repos. no_coauthors r"
  shows "eff (fst st) (fst (foldl processRepo st repos)) k
     (\<exists>r \<in> set repos. repo_touches k r)
     (sum_list (map (repo_delta k) repos))
     (repo_name ` {r \<in> set repos. repo_touches k r})"
  using assms
proof (induction repos arbitrary: st)
  case Nil
  then show ?case by (simp add: eff_refl)
next
  case (Cons r repos)
  then have nc: "no_coauthors r" and rest: "\<forall>r \<in> set repos. no_coauthors r" by simp_all
  note one = eff_processRepo [OF nc, of st k, THEN conjunct1]
  note more = Cons.IH [OF rest, of "processRepo st r"]
  from eff_trans [OF one more]
  show ?case by (auto simp: eff_def)
qed

lemma sum_list_mset_cong:
  "mset xs = mset ys \<Longrightarrow> sum_list (map f xs) = sum_list (map f ys)" for f :: "'a \<Rightarrow> int"
proof -
  assume "mset xs = mset ys"
  then have "mset (map f xs) = mset (map f ys)" by simp
  then have "sum_mset (mset (map f xs)) = sum_mset (mset (map f ys))" by (simp only:)
  then show ?thesis by (simp only: sum_mset_sum_list)
qed

lemma process_order_mset:
  assumes "distinct (map repo_name allRepos)"
  shows "mset (allReposInProcessOrder allRepos) = mset allRepos"
proof -
  let ?P = "\<lambda>repo. repo_name repo = ''OmniCloud-Full'' \<or> repo_pushed_recently repo"
  let ?primary = "filter ?P allRepos"
  have inj: "inj_on repo_name (set allRepos)"
    using assms by (simp add: distinct_map)
  have "filter (\<lambda>repo. \<not> list_ex (\<lambda>p. repo_name p = repo_name repo) ?primary) allRepos
      = filter (\<lambda>repo. \<not> ?P repo) allRepos"
  proof (rule filter_cong [OF refl])
    fix r assume r: "r \<in> set allRepos"
    have "list_ex (\<lambda>p. repo_name p = repo_name r) ?primary \<longleftrightarrow> ?P r"
    proof
      assume "list_ex (\<lambda>p. repo_name p = repo_name r) ?primary"
      then obtain p where p: "p \<in> set allRepos" "?P p" "repo_name p = repo_name r"
        by (auto simp: list_ex_iff)
      with inj r have "p = r" by (auto dest: inj_onD)
      with p show "?P r" by simp
    next
      assume "?P r"
      with r show "list_ex (\<lambda>p. repo_name p = repo_name r) ?primary"
        by (auto simp: list_ex_iff)
    qed
    then show "(\<not> list_ex (\<lambda>p. repo_name p = repo_name r) ?primary) = (\<not> ?P r)" by simp
  qed
  then have "allReposInProcessOrder allRepos = filter ?P allRepos @ filter (\<lambda>repo. \<not> ?P repo) allRepos"
    by (simp add: allReposInProcessOrder_def Let_def)
  then show ?thesis by simp
qed

text \<open>
  Claim C8 (as amended). When no commit message of the collection yields a co-author
  candidate, processing the repositories in the script's primary-first order or in any
  other order gives the same keys and, for every key, the same contribution sum and
  the same set of repositories. (With co-author candidates the outcome depends on the
  order, as the example after the theorem shows.)
\<close>

theorem order_insensitive_without_coauthors:
  assumes names: "distinct (map repo_name allRepos)"
    and perm: "mset repos' = mset allRepos"
    and nc: "\<forall>r \<in> set allRepos. no_coauthors r"
  shows "Map_has (fst (populate allRepos)) k =
           Map_has (fst (foldl processRepo ([], []) repos')) k \<and>
         contributions_of (fst (populate allRepos)) k =
           contributions_of (fst (foldl processRepo ([], []) repos')) k \<and>
         set (repositories_of (fst (populate allRepos)) k) =
           set (repositories_of (fst (foldl processRepo ([], []) repos')) k)"
proof -
  let ?ord = "allReposInProcessOrder allRepos"
  have m: "mset ?ord = mset repos'"
    using process_order_mset [OF names] perm by simp
  then have s: "set ?ord = set repos'" by (rule mset_eq_setD)
  have s0: "set repos' = set allRepos" using perm by (rule mset_eq_setD)
  have nc1: "\<forall>r \<in> set ?ord. no_coauthors r" using nc s s0 by simp
  have nc2: "\<forall>r \<in> set repos'. no_coauthors r" using nc s0 by simp
  note a = eff_repos [OF nc1, of "([], [])" k]
  note b = eff_repos [OF nc2, of "([], [])" k]
  have sums: "sum_list (map (repo_delta k) ?ord) = sum_list (map (repo_delta k) repos')"
    using m by (rule sum_list_mset_cong)
  show ?thesis
    using a b unfolding eff_def populate_def s sums by simp
qed

lemma ex_no_coauthors: "no_coauthors ex_r1" "no_coauthors ex_r3"
  unfolding no_coauthors_def by code_simp+

theorem order_insensitive_without_coauthors_witness:
  "contributions_of (fst (populate [ex_r1, ex_r3])) ''al'' = 7 \<and>
   contributions_of (fst (foldl processRepo ([], []) [ex_r1, ex_r3])) ''al'' = 7 \<and>
   set (repositories_of (fst (populate [ex_r1, ex_r3])) ''al'') = {''r1'', ''r3''}"
proof -
  have h1: "distinct (map repo_name [ex_r1, ex_r3])"
    by (simp add: ex_r1_def ex_r3_def)
  have h2: "mset [ex_r1, ex_r3] = mset [ex_r1, ex_r3]" by simp
  have h3: "\<forall>r \<in> set [ex_r1, ex_r3]. no_coauthors r"
    by (simp add: ex_no_coauthors)
  have run: "contributions_of (fst (foldl processRepo ([], []) [ex_r1, ex_r3])) ''al'' = 7"
    "set (repositories_of (fst (foldl processRepo ([], []) [ex_r1, ex_r3])) ''al'') = {''r1'', ''r3''}"
    by code_simp+
  from order_insensitive_without_coauthors [OF h1 h2 h3, of "''al''"] run
  show ?thesis by simp
qed

theorem repository_order_changes_aggregates:
  "map_sum id (map (\<lambda>c. (login c, contributions c, repositories c)))
     (allContributors [] [ex_r1, ex_r2])
     = Inr [(''al'', 5, [''r1'']), (''Al'', 1, [''r2''])] \<and>
   map_sum id (map (\<lambda>c. (login c, contributions c, repositories c)))
     (allContributors [] [ex_r1, ex_r2\<lparr>repo_pushed_recently := True\<rparr>])
     = Inr [(''Al'', 6, [''r2'', ''r1''])]"
  by code_simp

end
